theory Spec2Isabelle
  imports Main "HOL-Library.Sublist" "HOL-Library.AList" "HOL-Library.List_Lexorder"
    "HOL-Library.Char_ord"
begin

section \<open>Strings of the JavaScript runtime\<close>

text \<open>
  A JavaScript string is modelled as a \<^typ>\<open>string\<close> whose characters are the code units
  \<open>0..255\<close> (Latin-1). The built-in string methods the components call are written out.
\<close>

text \<open>\<open>String.prototype.trim\<close>: white space and line terminators, on the code units
  \<open>0..255\<close>: TAB, LF, VT, FF, CR, SP and NBSP.\<close>

definition is_ws :: "char \<Rightarrow> bool" where
  "is_ws c = (of_char c \<in> {9, 10, 11, 12, 13, 32, 160 :: nat})"

definition trim :: "string \<Rightarrow> string" where
  "trim s = rev (dropWhile is_ws (rev (dropWhile is_ws s)))"

text \<open>\<open>String.prototype.split\<close> with a separator of one character: the pieces between
  the separators, \<open>cur\<close> holding the piece being read, reversed.\<close>

fun split_aux :: "char \<Rightarrow> string \<Rightarrow> string \<Rightarrow> string list" where
  "split_aux c cur [] = [rev cur]"
| "split_aux c cur (x # xs) =
     (if x = c then rev cur # split_aux c [] xs else split_aux c (x # cur) xs)"

definition split_str :: "char \<Rightarrow> string \<Rightarrow> string list" where
  "split_str c s = split_aux c [] s"

text \<open>\<open>String.prototype.includes\<close> and \<open>String.prototype.endsWith\<close>.\<close>

definition str_includes :: "string \<Rightarrow> string \<Rightarrow> bool" where
  "str_includes s t = sublist t s"

definition endsWith :: "string \<Rightarrow> string \<Rightarrow> bool" where
  "endsWith s t = suffix t s"

text \<open>\<open>String.prototype.toLowerCase\<close> on the code units \<open>0..255\<close>: \<open>A..Z\<close> and the
  accented capitals \<open>0xC0..0xDE\<close> other than the multiplication sign \<open>0xD7\<close>.\<close>

definition lower_char :: "char \<Rightarrow> char" where
  "lower_char c =
     (let n = (of_char c :: nat)
      in if (65 \<le> n \<and> n \<le> 90) \<or> (192 \<le> n \<and> n \<le> 222 \<and> n \<noteq> 215)
         then char_of (n + 32) else c)"

definition toLowerCase :: "string \<Rightarrow> string" where
  "toLowerCase s = map lower_char s"

text \<open>\<open>Number.prototype.toString\<close> on the integers: the decimal digits, with a minus
  sign in front of a negative number.\<close>

fun show_nat :: "nat \<Rightarrow> string" where
  "show_nat n =
     (if n < 10 then [char_of (48 + n)] else show_nat (n div 10) @ [char_of (48 + n mod 10)])"

declare show_nat.simps [simp del]

definition show_int :: "int \<Rightarrow> string" where
  "show_int i = (if i < 0 then CHR ''-'' # show_nat (nat (- i)) else show_nat (nat i))"

section \<open>Values, row objects and the table\<close>

text \<open>
  A cell holds a string, a number, \<open>null\<close> or \<open>undefined\<close>. The numbers of the model are
  the integers and \<open>NaN\<close>.
\<close>

datatype jsval = VStr string | VNum int | VNaN | VNull | VUndef

text \<open>\<open>String(value)\<close> of a cell value.\<close>

fun String :: "jsval \<Rightarrow> string" where
  "String (VStr s) = s"
| "String (VNum n) = show_int n"
| "String VNaN = ''NaN''"
| "String VNull = ''null''"
| "String VUndef = ''undefined''"

text \<open>
  A row is a plain object: its own properties, in the order the runtime enumerates them,
  and its prototype. Every object the code builds (an object literal, the rest of a
  destructuring) starts with the prototype \<open>Object.prototype\<close>; writing \<open>null\<close> to
  \<open>__proto__\<close> takes the prototype away.
  Row objects live in a heap and the table holds references to them, because rows are
  deleted by reference; an object is never changed after it is built, so the heap only grows.
\<close>

datatype prototype = Object_prototype | Null_prototype

record row =
  props :: "(string \<times> jsval) list"
  proto :: prototype

type_synonym ref = nat

type_synonym heap = "row list"

record TableData =
  headers :: "string list"
  rows :: "ref list"

datatype js_error = Error string

text \<open>The object literal \<open>{}\<close>.\<close>

definition empty_object :: row where
  "empty_object = \<lparr>props = [], proto = Object_prototype\<rparr>"

text \<open>
  Reading a property, \<open>row[key]\<close>: the value of the object's own property; for a key the
  object does not have, the member of \<open>Object.prototype\<close> with that name when the object
  has this prototype and the name is one of its members (a built-in function, or for
  \<open>__proto__\<close> the prototype object itself), and \<open>undefined\<close> otherwise. So an
  expression \<open>row[key]\<close> is a cell value or such a member.
\<close>

datatype jsany = Prim jsval | ObjectMember string

definition Object_prototype_members :: "string list" where
  "Object_prototype_members =
     [''constructor'', ''hasOwnProperty'', ''isPrototypeOf'', ''propertyIsEnumerable'',
      ''toLocaleString'', ''toString'', ''valueOf'', ''__proto__'', ''__defineGetter__'',
      ''__defineSetter__'', ''__lookupGetter__'', ''__lookupSetter__'']"

definition get_prop :: "row \<Rightarrow> string \<Rightarrow> jsany" where
  "get_prop r k =
     (case map_of (props r) k of
        Some x \<Rightarrow> Prim x
      | None \<Rightarrow>
          if proto r = Object_prototype \<and> k \<in> set Object_prototype_members
          then ObjectMember k else Prim VUndef)"

text \<open>
  Writing a property, \<open>row[key] = value\<close>. A key the object has keeps its place and takes
  the value. Otherwise, on an object with the prototype \<open>Object.prototype\<close> the key
  \<open>__proto__\<close> is the inherited setter: it stores nothing, and for the value \<open>null\<close> it
  sets the prototype to \<open>null\<close>. Any other new key becomes an own property: a key that is
  an array index (the decimal form of a number below \<open>2^32 - 1\<close>) among the array
  indices in ascending order, which come first; any other key last.
\<close>

definition is_digit :: "char \<Rightarrow> bool" where
  "is_digit c = (48 \<le> (of_char c :: nat) \<and> (of_char c :: nat) \<le> 57)"

definition digits_value :: "string \<Rightarrow> nat" where
  "digits_value s = foldl (\<lambda>acc c. 10 * acc + (of_char c - 48)) 0 s"

definition is_array_index :: "string \<Rightarrow> bool" where
  "is_array_index k =
     (k \<noteq> [] \<and> list_all is_digit k \<and> (k = ''0'' \<or> hd k \<noteq> CHR ''0'')
      \<and> length k \<le> 10 \<and> digits_value k < 4294967295)"

fun insert_index :: "string \<Rightarrow> jsval \<Rightarrow> (string \<times> jsval) list \<Rightarrow> (string \<times> jsval) list" where
  "insert_index k x [] = [(k, x)]"
| "insert_index k x ((k', x') # ps) =
     (if is_array_index k' \<and> digits_value k' < digits_value k
      then (k', x') # insert_index k x ps
      else (k, x) # (k', x') # ps)"

definition set_prop :: "row \<Rightarrow> string \<Rightarrow> jsval \<Rightarrow> row" where
  "set_prop r k x =
     (if k \<in> fst ` set (props r) then r\<lparr>props := AList.update k x (props r)\<rparr>
      else if k = ''__proto__'' \<and> proto r = Object_prototype
      then (if x = VNull then r\<lparr>proto := Null_prototype\<rparr> else r)
      else if is_array_index k then r\<lparr>props := insert_index k x (props r)\<rparr>
      else r\<lparr>props := props r @ [(k, x)]\<rparr>)"

text \<open>Building objects: each new object gets the next free reference.\<close>

definition alloc_rows :: "row list \<Rightarrow> heap \<Rightarrow> ref list \<times> heap" where
  "alloc_rows objs h = ([length h ..< length h + length objs], h @ objs)"

text \<open>
  What the language leaves to the engine is a parameter of the model: the date parsed by
  \<open>new Date(value)\<close> (see \<open>formatCellValue\<close>), the text \<open>String(f)\<close> of a built-in
  function \<open>f\<close> of \<open>Object.prototype\<close>, and the order in which \<open>Array.prototype.sort\<close>
  leaves an array whose comparator is not a consistent ordering of its elements.
\<close>

record date =
  year :: nat
  month :: nat
  day :: nat

record platform =
  new_Date :: "string \<Rightarrow> js_error + date option"
  native_source :: "string \<Rightarrow> string"
  unordered_sort :: "(ref \<Rightarrow> ref \<Rightarrow> int option) \<Rightarrow> ref list \<Rightarrow> ref list"

text \<open>\<open>String(value)\<close> of an expression \<open>row[key]\<close>.\<close>

fun String_any :: "platform \<Rightarrow> jsany \<Rightarrow> string" where
  "String_any P (Prim x) = String x"
| "String_any P (ObjectMember k) =
     (if k = ''__proto__'' then ''[object Object]'' else native_source P k)"

section \<open>The file upload component: parsing\<close>

text \<open>
  \<open>parseCSV\<close>. Each row object is built by writing \<open>row[header] = values[index] || ""\<close>
  for the headers in order; \<open>values[index]\<close> is \<open>undefined\<close> beyond the end of the line,
  and the empty string is falsy as well.
\<close>

definition field_or_empty :: "string list \<Rightarrow> nat \<Rightarrow> string" where
  "field_or_empty values i = (if i < length values \<and> values ! i \<noteq> [] then values ! i else [])"

definition csv_row :: "string list \<Rightarrow> string \<Rightarrow> row" where
  "csv_row hdrs line =
     (let values = map trim (split_str CHR '','' line)
      in foldl (\<lambda>row (header, index). set_prop row header (VStr (field_or_empty values index)))
           empty_object (zip hdrs [0 ..< length hdrs]))"

definition parseCSV :: "string \<Rightarrow> heap \<Rightarrow> js_error + (TableData \<times> heap)" where
  "parseCSV text h =
     (let lines = split_str (CHR 0x0A) (trim text)
      in if length lines = 0 then Inl (Error ''Empty file'')
         else
           let hdrs = map trim (split_str CHR '','' (hd lines));
               objs = map (csv_row hdrs) (drop 1 lines);
               (refs, h') = alloc_rows objs h
           in Inr (\<lparr>headers = hdrs, rows = refs\<rparr>, h'))"

text \<open>
  \<open>parseCSVFile\<close> and \<open>parseExcel\<close> read the file first. A file is its name, its MIME
  type (empty when the browser knows none) and what the two ways of reading it deliver:
  \<open>file_text\<close> is the result of \<open>readAsText\<close> (\<open>None\<close> when the read fails or
  delivers no string), \<open>file_workbook\<close> the first sheet of \<open>XLSX.read\<close> on the binary
  content (\<open>None\<close> when the read fails or is empty, \<open>Some (Inl e)\<close> when the library
  throws \<open>e\<close>).
\<close>

datatype cellval = CStr string | CNum int | CBool bool

record cell =
  cell_w :: "string option"
  cell_v :: "cellval option"

record range =
  s_r :: nat
  s_c :: nat
  e_r :: nat
  e_c :: nat

record sheet =
  sheet_ref :: "range option"
  sheet_cells :: "((nat \<times> nat) \<times> cell) list"

record File =
  file_name :: string
  file_type :: string
  file_text :: "string option"
  file_workbook :: "(js_error + sheet) option"

definition parseCSVFile :: "File \<Rightarrow> heap \<Rightarrow> js_error + (TableData \<times> heap)" where
  "parseCSVFile file h =
     (case file_text file of
        None \<Rightarrow> Inl (Error ''Failed to read file'')
      | Some text \<Rightarrow> parseCSV text h)"

text \<open>Truthiness of \<open>cell.w\<close> and \<open>cell.v\<close>, and \<open>cell.v.toString()\<close>.\<close>

fun truthy_cellval :: "cellval \<Rightarrow> bool" where
  "truthy_cellval (CStr s) = (s \<noteq> [])"
| "truthy_cellval (CNum n) = (n \<noteq> 0)"
| "truthy_cellval (CBool b) = b"

fun cellval_toString :: "cellval \<Rightarrow> string" where
  "cellval_toString (CStr s) = s"
| "cellval_toString (CNum n) = show_int n"
| "cellval_toString (CBool b) = (if b then ''true'' else ''false'')"

definition truthy_str :: "string option \<Rightarrow> bool" where
  "truthy_str s = (case s of None \<Rightarrow> False | Some t \<Rightarrow> t \<noteq> [])"

text \<open>\<open>cell && (cell.w || cell.v)\<close>, for the cell at an address of the sheet.\<close>

definition cell_has_data :: "sheet \<Rightarrow> nat \<Rightarrow> nat \<Rightarrow> bool" where
  "cell_has_data sh r c =
     (case map_of (sheet_cells sh) (r, c) of
        None \<Rightarrow> False
      | Some cl \<Rightarrow> truthy_str (cell_w cl) \<or> (case cell_v cl of None \<Rightarrow> False | Some x \<Rightarrow> truthy_cellval x))"

text \<open>\<open>cell ? cell.w || cell.v?.toString() || "" : ""\<close>.\<close>

definition cell_text :: "sheet \<Rightarrow> nat \<Rightarrow> nat \<Rightarrow> string" where
  "cell_text sh r c =
     (case map_of (sheet_cells sh) (r, c) of
        None \<Rightarrow> []
      | Some cl \<Rightarrow>
          (case cell_w cl of
             Some t \<Rightarrow>
               if t \<noteq> [] then t
               else (case cell_v cl of None \<Rightarrow> [] | Some x \<Rightarrow> cellval_toString x)
           | None \<Rightarrow> (case cell_v cl of None \<Rightarrow> [] | Some x \<Rightarrow> cellval_toString x)))"

text \<open>
  The body of \<open>parseExcel\<close> once the sheet is read. \<open>sheet["!ref"] || "A1"\<close> is the
  bounding range. A data row is written with \<open>rowData[headers[col]] = value\<close>, where
  \<open>col\<close> is the column number in the sheet: beyond the end of \<open>headers\<close> the key is
  \<open>undefined\<close>, which as a property name is the string \<open>"undefined"\<close>.
\<close>

definition header_key :: "string list \<Rightarrow> nat \<Rightarrow> string" where
  "header_key hdrs col = (if col < length hdrs then hdrs ! col else ''undefined'')"

definition parseSheet :: "sheet \<Rightarrow> heap \<Rightarrow> js_error + (TableData \<times> heap)" where
  "parseSheet sh h =
     (let rng = (case sheet_ref sh of None \<Rightarrow> \<lparr>s_r = 0, s_c = 0, e_r = 0, e_c = 0\<rparr> | Some r \<Rightarrow> r);
          cols = [s_c rng ..< Suc (e_c rng)];
          headerRowIndex =
            (case find (\<lambda>r. list_ex (cell_has_data sh r) cols) [s_r rng ..< Suc (e_r rng)] of
               None \<Rightarrow> 0 | Some r \<Rightarrow> r);
          dataStartRowIndex =
            (case find (\<lambda>r. list_ex (cell_has_data sh r) cols) [s_r rng ..< Suc (e_r rng)] of
               None \<Rightarrow> 0 | Some r \<Rightarrow> r + 1);
          hdrs = map (\<lambda>col. let headerValue = cell_text sh headerRowIndex col
                             in if headerValue \<noteq> [] then headerValue
                                else ''Column '' @ show_nat (col + 1)) cols;
          rowData = (\<lambda>r. foldl (\<lambda>obj col. set_prop obj (header_key hdrs col) (VStr (cell_text sh r col)))
                            empty_object cols);
          hasAnyValue = (\<lambda>r. list_ex (\<lambda>col. cell_text sh r col \<noteq> []) cols);
          objs = map rowData (filter hasAnyValue [dataStartRowIndex ..< Suc (e_r rng)])
      in if length hdrs = 0 then Inl (Error ''No data found in Excel file'')
         else let (refs, h') = alloc_rows objs h
              in Inr (\<lparr>headers = hdrs, rows = refs\<rparr>, h'))"

definition parseExcel :: "File \<Rightarrow> heap \<Rightarrow> js_error + (TableData \<times> heap)" where
  "parseExcel file h =
     (case file_workbook file of
        None \<Rightarrow> Inl (Error ''Failed to read file'')
      | Some (Inl e) \<Rightarrow> Inl e
      | Some (Inr sh) \<Rightarrow> parseSheet sh h)"

text \<open>\<open>handleFile\<close>: the choice of the parser, then the parse; an error ends as the
  message shown to the user.\<close>

datatype parser = ExcelParser | CSVParser

definition choose_parser :: "File \<Rightarrow> js_error + parser" where
  "choose_parser file =
     (if file_type file = [] \<and> \<not> endsWith (file_name file) ''.xlsx''
         \<and> \<not> endsWith (file_name file) ''.xls'' \<and> \<not> endsWith (file_name file) ''.csv''
      then Inl (Error ''Invalid file format. Please upload a CSV or Excel file.'')
      else if endsWith (file_name file) ''.xlsx'' \<or> endsWith (file_name file) ''.xls''
              \<or> str_includes (file_type file) ''spreadsheet''
      then Inr ExcelParser
      else if endsWith (file_name file) ''.csv'' \<or> file_type file = ''text/csv''
      then Inr CSVParser
      else Inl (Error ''Unsupported file format. Please upload CSV or Excel files.''))"

definition handleFile :: "File \<Rightarrow> heap \<Rightarrow> js_error + (TableData \<times> heap)" where
  "handleFile file h =
     (case choose_parser file of
        Inl e \<Rightarrow> Inl e
      | Inr ExcelParser \<Rightarrow> parseExcel file h
      | Inr CSVParser \<Rightarrow> parseCSVFile file h)"

section \<open>The data table component\<close>

text \<open>
  The state of the component: the table it was given (with the heap its rows live in), the
  view state, the header being edited, and the alerts shown so far. Every handler takes
  the state and returns the next one.
\<close>

datatype direction = Asc | Desc

record state =
  heap :: heap
  data :: TableData
  sortConfig :: "(string \<times> direction) option"
  searchTerm :: string
  editingHeader :: "string option"
  editingHeaderValue :: string
  currentPage :: int
  alerts :: "string list"

definition RECORDS_PER_PAGE :: int where
  "RECORDS_PER_PAGE = 30"

subsection \<open>Formatting a cell\<close>

text \<open>
  The platform's \<open>Date\<close>: \<open>new Date(value)\<close> gives the calendar date in local time,
  \<open>None\<close> for an invalid date, or an exception (the code guards the call with \<open>try\<close>).
  \<open>toLocaleDateString("en-US", {year: "numeric", month: "short", day: "numeric"})\<close> prints
  the abbreviated month, the day, a comma and the year in full; \<open>month\<close> counts from 0.
\<close>

definition monthNames :: "string list" where
  "monthNames = [''Jan'', ''Feb'', ''Mar'', ''Apr'', ''May'', ''Jun'',
                 ''Jul'', ''Aug'', ''Sep'', ''Oct'', ''Nov'', ''Dec'']"

definition toLocaleDateString :: "date \<Rightarrow> string" where
  "toLocaleDateString d =
     (if month d < 12 then monthNames ! month d else []) @ '' '' @ show_nat (day d)
       @ '', '' @ show_nat (year d)"

definition isDateColumn :: "string \<Rightarrow> bool" where
  "isDateColumn header =
     (str_includes (toLowerCase header) ''date'' \<or> str_includes (toLowerCase header) ''time'')"

definition hasMonthName :: "string \<Rightarrow> bool" where
  "hasMonthName s = list_ex (\<lambda>month. str_includes s month) monthNames"

text \<open>\<open>formatCellValue(row[header], header)\<close>.\<close>

fun formatCellValue :: "platform \<Rightarrow> jsany \<Rightarrow> string \<Rightarrow> js_error + string" where
  "formatCellValue P (Prim VNull) header = Inr []"
| "formatCellValue P (Prim VUndef) header = Inr []"
| "formatCellValue P (Prim (VNum n)) header = Inr (show_int n)"
| "formatCellValue P (Prim VNaN) header = Inr ''NaN''"
| "formatCellValue P (Prim (VStr s)) header =
     (if isDateColumn header then
        if hasMonthName s then Inr s
        else (case new_Date P s of
                Inr (Some dateObj) \<Rightarrow> Inr (toLocaleDateString dateObj)
              | Inr None \<Rightarrow> Inr (String (VStr s))
              | Inl e \<Rightarrow> Inr (String (VStr s)))
      else Inr (String (VStr s)))"
| "formatCellValue P (ObjectMember k) header = Inr (String_any P (ObjectMember k))"

subsection \<open>Filter and sort\<close>

definition handleSort :: "string \<Rightarrow> state \<Rightarrow> state" where
  "handleSort key s =
     (let direction = (if sortConfig s = Some (key, Asc) then Desc else Asc)
      in s\<lparr>sortConfig := Some (key, direction), currentPage := 1\<rparr>)"

text \<open>The search box.\<close>

definition handleSearch :: "string \<Rightarrow> state \<Rightarrow> state" where
  "handleSearch term s = s\<lparr>searchTerm := term, currentPage := 1\<rparr>"

text \<open>\<open>Object.values(row).some(value => String(value).toLowerCase().includes(lowerTerm))\<close>.\<close>

definition row_matches :: "string \<Rightarrow> row \<Rightarrow> bool" where
  "row_matches lowerTerm r =
     list_ex (\<lambda>value. str_includes (toLowerCase (String value)) lowerTerm) (map snd (props r))"

text \<open>
  The comparator given to \<open>sort\<close>. \<open>===\<close> holds between equal values other than \<open>NaN\<close>.
  The result is a number or \<open>NaN\<close>, written \<open>None\<close>: the difference of two numbers one of
  which is \<open>NaN\<close>.
\<close>

definition strict_equal :: "jsany \<Rightarrow> jsany \<Rightarrow> bool" where
  "strict_equal a b = (a = b \<and> a \<noteq> Prim VNaN)"

fun is_nullish :: "jsany \<Rightarrow> bool" where
  "is_nullish (Prim VNull) = True"
| "is_nullish (Prim VUndef) = True"
| "is_nullish _ = False"

fun is_number :: "jsany \<Rightarrow> bool" where
  "is_number (Prim (VNum n)) = True"
| "is_number (Prim VNaN) = True"
| "is_number _ = False"

definition compare_rows :: "platform \<Rightarrow> string \<Rightarrow> direction \<Rightarrow> row \<Rightarrow> row \<Rightarrow> int option" where
  "compare_rows P key dir a b =
     (let aValue = get_prop a key; bValue = get_prop b key
      in if strict_equal aValue bValue then Some 0
         else if is_nullish aValue then Some 1
         else if is_nullish bValue then Some (- 1)
         else if is_number aValue \<and> is_number bValue
         then (case (aValue, bValue) of
                 (Prim (VNum x), Prim (VNum y)) \<Rightarrow> Some (if dir = Asc then x - y else y - x)
               | _ \<Rightarrow> None)
         else
           let aString = toLowerCase (String_any P aValue);
               bString = toLowerCase (String_any P bValue)
           in if aString < bString then Some (if dir = Asc then - 1 else 1)
              else if aString > bString then Some (if dir = Asc then 1 else - 1)
              else Some 0)"

text \<open>
  \<open>Array.prototype.sort\<close> with a comparator. The sort reads a result \<open>NaN\<close> of the
  comparator as 0. When the comparator is a consistent comparison function for the
  elements (ECMAScript: no result is \<open>NaN\<close>, comparing equal is reflexive, symmetric and
  transitive, and comparing less and comparing greater are transitive), the result is the
  stable sort, written here as the insertion sort: an element goes in front of the first
  element it does not compare greater than. Otherwise the order is left to the engine.
\<close>

definition sort_reads :: "int option \<Rightarrow> int" where
  "sort_reads v = (case v of None \<Rightarrow> 0 | Some n \<Rightarrow> n)"

definition consistent_order :: "('a \<Rightarrow> 'a \<Rightarrow> int) \<Rightarrow> 'a list \<Rightarrow> bool" where
  "consistent_order cmp xs =
     (\<forall>a \<in> set xs. \<forall>b \<in> set xs. \<forall>c \<in> set xs.
        cmp a a = 0
        \<and> (cmp a b = 0 \<longrightarrow> cmp b a = 0)
        \<and> (cmp a b = 0 \<and> cmp b c = 0 \<longrightarrow> cmp a c = 0)
        \<and> (cmp a b < 0 \<and> cmp b c < 0 \<longrightarrow> cmp a c < 0)
        \<and> (cmp a b > 0 \<and> cmp b c > 0 \<longrightarrow> cmp a c > 0))"

definition consistent :: "('a \<Rightarrow> 'a \<Rightarrow> int option) \<Rightarrow> 'a list \<Rightarrow> bool" where
  "consistent comparefn xs =
     ((\<forall>a \<in> set xs. \<forall>b \<in> set xs. comparefn a b \<noteq> None)
      \<and> consistent_order (\<lambda>a b. sort_reads (comparefn a b)) xs)"

fun insort_cmp :: "('a \<Rightarrow> 'a \<Rightarrow> int) \<Rightarrow> 'a \<Rightarrow> 'a list \<Rightarrow> 'a list" where
  "insort_cmp cmp x [] = [x]"
| "insort_cmp cmp x (y # ys) = (if cmp x y \<le> 0 then x # y # ys else y # insort_cmp cmp x ys)"

definition stable_sort :: "('a \<Rightarrow> 'a \<Rightarrow> int) \<Rightarrow> 'a list \<Rightarrow> 'a list" where
  "stable_sort cmp xs = foldr (insort_cmp cmp) xs []"

definition sort_cmp ::
  "(('a \<Rightarrow> 'a \<Rightarrow> int option) \<Rightarrow> 'a list \<Rightarrow> 'a list) \<Rightarrow> ('a \<Rightarrow> 'a \<Rightarrow> int option)
     \<Rightarrow> 'a list \<Rightarrow> 'a list" where
  "sort_cmp engine comparefn xs =
     (if consistent comparefn xs then stable_sort (\<lambda>a b. sort_reads (comparefn a b)) xs
      else engine comparefn xs)"

definition getProcessedRows :: "platform \<Rightarrow> state \<Rightarrow> ref list" where
  "getProcessedRows P s =
     (let processedRows = rows (data s);
          filtered =
            (if searchTerm s \<noteq> []
             then filter (\<lambda>r. row_matches (toLowerCase (searchTerm s)) (heap s ! r)) processedRows
             else processedRows)
      in case sortConfig s of
           None \<Rightarrow> filtered
         | Some (key, dir) \<Rightarrow>
             sort_cmp (unordered_sort P) (\<lambda>a b. compare_rows P key dir (heap s ! a) (heap s ! b))
               filtered)"

subsection \<open>Pagination with the last five rows\<close>

text \<open>\<open>Array.prototype.slice(start, end)\<close>; a negative index counts from the end.\<close>

definition slice :: "int \<Rightarrow> int \<Rightarrow> 'a list \<Rightarrow> 'a list" where
  "slice start end xs =
     (let len = int (length xs);
          k = (if start < 0 then max (len + start) 0 else min start len);
          final = (if end < 0 then max (len + end) 0 else min end len)
      in take (nat (final - k)) (drop (nat k) xs))"

text \<open>\<open>Math.ceil(a / b)\<close> for integers \<open>a\<close> and \<open>b > 0\<close>.\<close>

definition ceil_div :: "int \<Rightarrow> int \<Rightarrow> int" where
  "ceil_div a b = - ((- a) div b)"

text \<open>\<open>getPaginatedRows\<close>, as a function of the processed rows and the current page:
  the rows to show and \<open>displayIndicesStart\<close>.\<close>

definition getPaginatedRows :: "'a list \<Rightarrow> int \<Rightarrow> 'a list \<times> int" where
  "getPaginatedRows processedRows curPage =
     (let totalRows = int (length processedRows)
      in if totalRows \<le> RECORDS_PER_PAGE + 5 then (processedRows, 0)
         else
           let maxPage = ceil_div (totalRows - 5) RECORDS_PER_PAGE;
               page = min curPage maxPage;
               startIdx = (page - 1) * RECORDS_PER_PAGE;
               endIdx = min (startIdx + RECORDS_PER_PAGE) (totalRows - 5);
               mainPart = slice startIdx endIdx processedRows;
               lastPart = slice (- 5) totalRows processedRows
           in (mainPart @ lastPart, startIdx))"

definition totalPages :: "'a list \<Rightarrow> int" where
  "totalPages processedRows =
     (let p = ceil_div (max (int (length processedRows) - 5) 0) RECORDS_PER_PAGE
      in if p = 0 then 1 else p)"

definition hasGap :: "'a list \<Rightarrow> int \<Rightarrow> bool" where
  "hasGap processedRows curPage =
     (int (length processedRows) > RECORDS_PER_PAGE + 5 \<and> curPage < totalPages processedRows)"

text \<open>The table body: the message for an empty result, or the rows with their displayed
  numbers and the gap marker in front of the first of the last five.\<close>

datatype 'a item = NoMatch | GapMarker int | DataRow int 'a

definition render_row :: "'a list \<Rightarrow> int \<Rightarrow> int \<Rightarrow> int \<times> 'a \<Rightarrow> 'a item list" where
  "render_row processedRows curPage displayIndicesStart ir =
     (let index = fst ir; row = snd ir;
          totalFilteredRows = int (length processedRows);
          isLastFive = (hasGap processedRows curPage \<and> index \<ge> RECORDS_PER_PAGE);
          displayIndex =
            (if isLastFive then totalFilteredRows - 5 + (index - RECORDS_PER_PAGE) + 1
             else displayIndicesStart + index + 1);
          isLastFiveStart = (hasGap processedRows curPage \<and> index = RECORDS_PER_PAGE)
      in (if isLastFiveStart then [GapMarker (totalFilteredRows - RECORDS_PER_PAGE - 5)] else [])
         @ [DataRow displayIndex row])"

definition tbody :: "'a list \<Rightarrow> int \<Rightarrow> 'a item list" where
  "tbody processedRows curPage =
     (let (paginatedRows, displayIndicesStart) = getPaginatedRows processedRows curPage
      in if length paginatedRows = 0 then [NoMatch]
         else concat (map (render_row processedRows curPage displayIndicesStart)
                        (zip (map int [0 ..< length paginatedRows]) paginatedRows)))"

text \<open>
  The pagination bar: the page numbers it offers (at most five, around the current page)
  and what its buttons do to the current page.
\<close>

definition page_numbers :: "int \<Rightarrow> int \<Rightarrow> int list" where
  "page_numbers curPage maxPage =
     filter (\<lambda>pageNum. \<not> pageNum > maxPage)
       (map (\<lambda>i. if maxPage > 5 \<and> curPage > 3 then curPage - 2 + i else i + 1)
          (map int [0 ..< nat (min 5 maxPage)]))"

datatype page_button = FirstPage | PreviousPage | PageNumber int | NextPage | LastPage

definition handlePage :: "platform \<Rightarrow> page_button \<Rightarrow> state \<Rightarrow> state" where
  "handlePage P b s =
     (let maxPage = totalPages (getProcessedRows P s)
      in case b of
           FirstPage \<Rightarrow> s\<lparr>currentPage := 1\<rparr>
         | PreviousPage \<Rightarrow> s\<lparr>currentPage := max 1 (currentPage s - 1)\<rparr>
         | PageNumber pageNum \<Rightarrow> s\<lparr>currentPage := pageNum\<rparr>
         | NextPage \<Rightarrow> s\<lparr>currentPage := min maxPage (currentPage s + 1)\<rparr>
         | LastPage \<Rightarrow> s\<lparr>currentPage := maxPage\<rparr>)"

subsection \<open>Editing the table\<close>

text \<open>\<open>const { [columnName]: _, ...rest } = row\<close>: a new object, with the prototype
  \<open>Object.prototype\<close>, that holds the other own properties.\<close>

definition rest_without :: "string \<Rightarrow> row \<Rightarrow> row" where
  "rest_without columnName r =
     \<lparr>props = filter (\<lambda>kv. fst kv \<noteq> columnName) (props r), proto = Object_prototype\<rparr>"

definition handleRemoveColumn :: "string \<Rightarrow> state \<Rightarrow> state" where
  "handleRemoveColumn columnName s =
     (let newHeaders = filter (\<lambda>h. h \<noteq> columnName) (headers (data s));
          (newRows, h') = alloc_rows (map (\<lambda>r. rest_without columnName (heap s ! r)) (rows (data s)))
                            (heap s)
      in s\<lparr>heap := h', data := \<lparr>headers = newHeaders, rows = newRows\<rparr>\<rparr>)"

definition handleRemoveRowByRef :: "ref \<Rightarrow> state \<Rightarrow> state" where
  "handleRemoveRowByRef rowRef s =
     s\<lparr>data := \<lparr>headers = headers (data s), rows = filter (\<lambda>r. r \<noteq> rowRef) (rows (data s))\<rparr>\<rparr>"

text \<open>The new row of \<open>handleRenameHeader\<close>: the entries of \<open>Object.entries(row)\<close> written
  one by one into an empty object.\<close>

definition renamed_row :: "string \<Rightarrow> string \<Rightarrow> row \<Rightarrow> row" where
  "renamed_row oldName newName r =
     foldl (\<lambda>newRow kv. set_prop newRow (if fst kv = oldName then newName else fst kv) (snd kv))
       empty_object (props r)"

definition handleRenameHeader :: "string \<Rightarrow> string \<Rightarrow> state \<Rightarrow> state" where
  "handleRenameHeader oldName newName s =
     (if trim newName = [] then s\<lparr>editingHeader := None\<rparr>
      else if newName \<noteq> oldName \<and> newName \<in> set (headers (data s))
      then s\<lparr>alerts := alerts s @ [''A column with this name already exists'']\<rparr>
      else
        let newHeaders = map (\<lambda>h. if h = oldName then newName else h) (headers (data s));
            (newRows, h') = alloc_rows (map (\<lambda>r. renamed_row oldName newName (heap s ! r)) (rows (data s)))
                              (heap s)
        in s\<lparr>heap := h', data := \<lparr>headers = newHeaders, rows = newRows\<rparr>, editingHeader := None\<rparr>)"

section \<open>Invariants of the table\<close>

text \<open>The invariant of the data model: the keys of every row are among the headers.\<close>

definition keys_within_headers :: "heap \<Rightarrow> TableData \<Rightarrow> bool" where
  "keys_within_headers h t = (\<forall>r \<in> set (rows t). fst ` set (props (h ! r)) \<subseteq> set (headers t))"

text \<open>
  The rows of the parsers: an object with the prototype \<open>Object.prototype\<close> that holds
  each key once, holds strings only and has no own key \<open>__proto__\<close>.
\<close>

definition string_row :: "row \<Rightarrow> bool" where
  "string_row r =
     (proto r = Object_prototype \<and> distinct (map fst (props r))
      \<and> ''__proto__'' \<notin> fst ` set (props r)
      \<and> list_all (\<lambda>kv. case snd kv of VStr t \<Rightarrow> True | _ \<Rightarrow> False) (props r))"

definition string_rows :: "heap \<Rightarrow> TableData \<Rightarrow> bool" where
  "string_rows h t = (\<forall>r \<in> set (rows t). string_row (h ! r))"

section \<open>Properties of the string functions\<close>

lemma split_aux_nonempty: "split_aux c cur s \<noteq> []"
  by (induction s arbitrary: cur) auto

lemma split_str_nonempty: "split_str c s \<noteq> []"
  by (simp add: split_str_def split_aux_nonempty)

text \<open>Evaluating \<open>endsWith\<close> and \<open>str_includes\<close> on given strings.\<close>

lemmas str_eval = endsWith_def str_includes_def suffix_to_prefix sublist_code(3)

section \<open>Properties of row objects\<close>

lemma fst_set_insert_index: "fst ` set (insert_index k x ps) = insert k (fst ` set ps)"
  by (induction k x ps rule: insert_index.induct) (simp_all add: insert_commute)

lemma map_of_insert_index:
  "k \<notin> fst ` set ps \<Longrightarrow> map_of (insert_index k x ps) = (map_of ps)(k \<mapsto> x)"
  by (induction k x ps rule: insert_index.induct) (auto simp: fun_upd_twist)

lemma distinct_insert_index:
  "k \<notin> fst ` set ps \<Longrightarrow> distinct (map fst ps) \<Longrightarrow> distinct (map fst (insert_index k x ps))"
  by (induction k x ps rule: insert_index.induct) (auto simp: fst_set_insert_index)

lemma map_of_snoc_fresh:
  "k \<notin> fst ` set ps \<Longrightarrow> map_of (ps @ [(k, x)]) = (map_of ps)(k \<mapsto> x)"
  by (simp add: map_add_upd_left map_of_eq_None_iff[symmetric] dom_map_of_conv_image_fst)

text \<open>A write that does not reach the setter of \<open>__proto__\<close> stores the value under the key.\<close>

lemma set_prop_stores:
  assumes "k \<noteq> ''__proto__'' \<or> k \<in> fst ` set (props r) \<or> proto r = Null_prototype"
  shows "fst ` set (props (set_prop r k x)) = insert k (fst ` set (props r))"
    and "map_of (props (set_prop r k x)) = (map_of (props r))(k \<mapsto> x)"
    and "proto (set_prop r k x) = proto r"
proof -
  have plain: "\<not> (k \<notin> fst ` set (props r) \<and> k = ''__proto__'' \<and> proto r = Object_prototype)"
    using assms by (cases "proto r") auto
  show "fst ` set (props (set_prop r k x)) = insert k (fst ` set (props r))"
    using plain by (auto simp: set_prop_def fst_set_insert_index AList.dom_update)
  show "map_of (props (set_prop r k x)) = (map_of (props r))(k \<mapsto> x)"
  proof (cases "k \<in> fst ` set (props r)")
    case True
    then show ?thesis
      by (simp add: set_prop_def AList.update_conv')
  next
    case False
    with plain have "set_prop r k x =
        (if is_array_index k then r\<lparr>props := insert_index k x (props r)\<rparr>
         else r\<lparr>props := props r @ [(k, x)]\<rparr>)"
      by (auto simp: set_prop_def)
    with False show ?thesis
      by (simp add: map_of_insert_index map_of_snoc_fresh del: map_of_append)
  qed
  show "proto (set_prop r k x) = proto r"
    using plain by (auto simp: set_prop_def)
qed

text \<open>A write that reaches the setter stores nothing.\<close>

lemma set_prop_setter:
  assumes "''__proto__'' \<notin> fst ` set (props r)" and "proto r = Object_prototype"
  shows "set_prop r ''__proto__'' x = (if x = VNull then r\<lparr>proto := Null_prototype\<rparr> else r)"
  using assms by (simp add: set_prop_def)

lemma set_prop_keys_subset:
  "fst ` set (props (set_prop r k x)) \<subseteq> insert k (fst ` set (props r))"
  by (auto simp: set_prop_def fst_set_insert_index AList.dom_update)

lemma distinct_set_prop:
  "distinct (map fst (props r)) \<Longrightarrow> distinct (map fst (props (set_prop r k x)))"
  by (simp add: set_prop_def distinct_insert_index AList.distinct_update)


lemma get_prop_absent:
  "k \<notin> fst ` set (props r) \<Longrightarrow> k \<notin> set Object_prototype_members \<Longrightarrow> get_prop r k = Prim VUndef"
  by (simp add: get_prop_def map_of_eq_None_iff [symmetric])

section \<open>Properties of the CSV parser\<close>


lemma csv_row_snoc:
  "csv_row (hs @ [x]) line =
     set_prop (csv_row hs line) x
       (VStr (field_or_empty (map trim (split_str CHR '','' line)) (length hs)))"
  by (simp add: csv_row_def Let_def)

lemma csv_row_keys:
  "fst ` set (props (csv_row hs line)) = set hs - {''__proto__''} \<and> proto (csv_row hs line) = Object_prototype"
proof (induction hs rule: rev_induct)
  case Nil
  show ?case by (simp add: csv_row_def empty_object_def)
next
  case (snoc x hs)
  show ?case
  proof (cases "x = ''__proto__''")
    case True
    with snoc show ?thesis
      by (simp add: csv_row_snoc set_prop_setter)
  next
    case False
    with snoc show ?thesis
      by (auto simp: csv_row_snoc set_prop_stores)
  qed
qed


lemma parseCSV_result:
  "parseCSV text h =
     Inr (\<lparr>headers = map trim (split_str CHR '','' (hd (split_str (CHR 0x0A) (trim text)))),
           rows = [length h ..< length h + length (tl (split_str (CHR 0x0A) (trim text)))]\<rparr>,
          h @ map (csv_row (map trim (split_str CHR '','' (hd (split_str (CHR 0x0A) (trim text))))))
                (tl (split_str (CHR 0x0A) (trim text))))"
  by (simp add: parseCSV_def Let_def split_str_nonempty alloc_rows_def drop_Suc)



section \<open>The parser: empty input and the rows of a CSV file\<close>

text \<open>
  C2. The claim: parsing the empty string in CSV mode raises the empty-file error.
  The code at this input: \<open>"".trim().split("\n")\<close> is the one-element array \<open>[""]\<close>, so the
  length test does not fire, and the result is a table with the single header \<open>""\<close> and
  no rows.
\<close>

theorem parseCSV_empty_text:
  "parseCSV '''' h = Inr (\<lparr>headers = [''''], rows = []\<rparr>, h)"
  by (simp add: parseCSV_def split_str_def trim_def alloc_rows_def)

text \<open>The empty-file branch is taken on no input at all.\<close>

lemma parseCSV_never_empty_file: "parseCSV text h \<noteq> Inl e"
  by (simp add: parseCSV_def Let_def split_str_nonempty split: prod.splits)




section \<open>The choice of the parser\<close>

text \<open>
  C3, as claimed: a file whose name ends in \<open>.csv\<close> is parsed as CSV whatever its MIME
  type. The code tests the MIME type for \<open>spreadsheet\<close> in the same condition as the Excel
  extensions, before it looks for \<open>.csv\<close>: this file goes to the Excel parser.
\<close>

theorem csv_name_with_spreadsheet_type_counterexample:
  "endsWith ''data.csv'' ''.csv''
   \<and> choose_parser \<lparr>file_name = ''data.csv'',
        file_type = ''application/vnd.openxmlformats-officedocument.spreadsheetml.sheet'',
        file_text = Some ''a,b'', file_workbook = None\<rparr> = Inr ExcelParser"
  by (simp add: choose_parser_def str_eval)

text \<open>
  C3, amended. A name ending in \<open>.xlsx\<close> or \<open>.xls\<close> selects the Excel parser whatever
  the MIME type, and so does a MIME type containing \<open>spreadsheet\<close> whatever the name.
  Otherwise a name ending in \<open>.csv\<close>, or the MIME type \<open>text/csv\<close> exactly, selects the
  CSV parser; in particular a file named \<open>.csv\<close> is parsed as CSV whenever its MIME type
  does not contain \<open>spreadsheet\<close>. Every other file is refused with a format error.
  \<open>handleFile\<close> runs the parser selected.
\<close>

theorem choose_parser_dispatch:
  "(endsWith (file_name f) ''.xlsx'' \<or> endsWith (file_name f) ''.xls''
      \<or> str_includes (file_type f) ''spreadsheet''
    \<longrightarrow> choose_parser f = Inr ExcelParser \<and> handleFile f h = parseExcel f h)
   \<and> (\<not> endsWith (file_name f) ''.xlsx'' \<and> \<not> endsWith (file_name f) ''.xls''
        \<and> \<not> str_includes (file_type f) ''spreadsheet''
        \<and> (endsWith (file_name f) ''.csv'' \<or> file_type f = ''text/csv'')
    \<longrightarrow> choose_parser f = Inr CSVParser \<and> handleFile f h = parseCSVFile f h)
   \<and> (\<not> endsWith (file_name f) ''.xlsx'' \<and> \<not> endsWith (file_name f) ''.xls''
        \<and> \<not> str_includes (file_type f) ''spreadsheet''
        \<and> \<not> endsWith (file_name f) ''.csv'' \<and> file_type f \<noteq> ''text/csv''
    \<longrightarrow> (\<exists>msg. choose_parser f = Inl (Error msg) \<and> handleFile f h = Inl (Error msg)))"
proof -
  have "str_includes (file_type f) ''spreadsheet'' \<Longrightarrow> file_type f \<noteq> []"
    by (auto simp: str_includes_def)
  then show ?thesis
    by (auto simp: choose_parser_def handleFile_def)
qed

theorem choose_parser_dispatch_witness:
  "choose_parser \<lparr>file_name = ''book.xlsx'', file_type = ''text/csv'',
       file_text = None, file_workbook = None\<rparr> = Inr ExcelParser
   \<and> choose_parser \<lparr>file_name = ''data.csv'', file_type = ''application/vnd.ms-excel'',
       file_text = None, file_workbook = None\<rparr> = Inr CSVParser
   \<and> choose_parser \<lparr>file_name = ''export'', file_type = ''text/csv'',
       file_text = None, file_workbook = None\<rparr> = Inr CSVParser
   \<and> (\<exists>msg. choose_parser \<lparr>file_name = ''notes.txt'', file_type = ''text/plain'',
       file_text = None, file_workbook = None\<rparr> = Inl (Error msg))"
  using
    choose_parser_dispatch [of "\<lparr>file_name = ''book.xlsx'', file_type = ''text/csv'',
       file_text = None, file_workbook = None\<rparr>" "[]"]
    choose_parser_dispatch [of "\<lparr>file_name = ''data.csv'', file_type = ''application/vnd.ms-excel'',
       file_text = None, file_workbook = None\<rparr>" "[]"]
    choose_parser_dispatch [of "\<lparr>file_name = ''export'', file_type = ''text/csv'',
       file_text = None, file_workbook = None\<rparr>" "[]"]
    choose_parser_dispatch [of "\<lparr>file_name = ''notes.txt'', file_type = ''text/plain'',
       file_text = None, file_workbook = None\<rparr>" "[]"]
  by (auto simp add: str_eval)


section \<open>Properties of the pagination\<close>

lemma ceil_div_30: "0 \<le> a \<Longrightarrow> ceil_div a 30 = (a + 29) div 30"
  unfolding ceil_div_def by linarith

lemma slice_take_drop:
  "a \<le> b \<Longrightarrow> b \<le> length xs \<Longrightarrow> slice (int a) (int b) xs = take (b - a) (drop a xs)"
  by (simp add: slice_def Let_def min_def nat_diff_distrib)

lemma slice_last5:
  "5 \<le> length xs \<Longrightarrow> slice (- 5) (int (length xs)) xs = drop (length xs - 5) xs"
  by (simp add: slice_def Let_def max_def nat_diff_distrib)

lemma zip_index_nth:
  "map g (zip (map int [0 ..< length xs]) xs) = map (\<lambda>j. g (int j, xs ! j)) [0 ..< length xs]"
  by (rule nth_equalityI) simp_all

lemma tbody_nth:
  "tbody rs cur =
     (if fst (getPaginatedRows rs cur) = [] then [NoMatch]
      else concat (map (\<lambda>j. render_row rs cur (snd (getPaginatedRows rs cur))
                              (int j, fst (getPaginatedRows rs cur) ! j))
                    [0 ..< length (fst (getPaginatedRows rs cur))]))"
  by (simp add: tbody_def zip_index_nth split: prod.splits)

lemma totalPages_large:
  assumes "35 < length rs"
  shows "totalPages rs = int ((length rs + 24) div 30)"
proof -
  have "ceil_div (max (int (length rs) - 5) 0) RECORDS_PER_PAGE = (int (length rs) + 24) div 30"
    using assms by (simp add: RECORDS_PER_PAGE_def ceil_div_30 max_def)
  moreover have "(int (length rs) + 24) div 30 = int ((length rs + 24) div 30)"
    by (simp add: zdiv_int)
  moreover have "(length rs + 24) div 30 \<noteq> 0"
    using assms by simp
  ultimately show ?thesis
    by (simp add: totalPages_def Let_def)
qed

lemma getPaginatedRows_small:
  "length rs \<le> 35 \<Longrightarrow> getPaginatedRows rs cur = (rs, 0)"
  by (simp add: getPaginatedRows_def RECORDS_PER_PAGE_def)

lemma hasGap_small: "length rs \<le> 35 \<Longrightarrow> \<not> hasGap rs cur"
  by (simp add: hasGap_def RECORDS_PER_PAGE_def)

lemma tbody_small:
  assumes "length rs \<le> 35"
  shows "tbody rs cur =
     (if rs = [] then [NoMatch] else map (\<lambda>j. DataRow (int j + 1) (rs ! j)) [0 ..< length rs])"
proof -
  have "render_row rs cur 0 (int j, rs ! j) = [DataRow (int j + 1) (rs ! j)]" for j
    using hasGap_small [OF assms, of cur] by (simp add: render_row_def Let_def)
  then show ?thesis
    by (simp add: tbody_nth getPaginatedRows_small [OF assms])
qed

lemma getPaginatedRows_large:
  assumes big: "35 < length rs" and cur: "1 \<le> cur"
  defines "p \<equiv> min (nat cur) ((length rs + 24) div 30)"
  shows "getPaginatedRows rs cur =
     (take (min (p * 30) (length rs - 5) - (p - 1) * 30) (drop ((p - 1) * 30) rs)
        @ drop (length rs - 5) rs,
      int ((p - 1) * 30))"
proof -
  define m where "m = (length rs + 24) div 30"
  have m: "2 \<le> m" "(m - 1) * 30 < length rs - 5"
    using big unfolding m_def by linarith+
  have M: "ceil_div (int (length rs) - 5) RECORDS_PER_PAGE = int m"
    using big by (simp add: RECORDS_PER_PAGE_def ceil_div_30 zdiv_int m_def)
  have p: "p = min (nat cur) m"
    by (simp add: p_def m_def)
  have p1: "1 \<le> p"
    using m cur unfolding p by linarith
  have P: "min cur (int m) = int p"
    using cur unfolding p by linarith
  have lo: "(int p - 1) * RECORDS_PER_PAGE = int ((p - 1) * 30)"
    using p1 by (simp add: RECORDS_PER_PAGE_def)
  have lt: "(p - 1) * 30 < length rs - 5"
    using m unfolding p by linarith
  then have hi: "min (int ((p - 1) * 30) + RECORDS_PER_PAGE) (int (length rs) - 5)
                   = int (min (p * 30) (length rs - 5))"
    using p1 big unfolding RECORDS_PER_PAGE_def by linarith
  have lohi: "(p - 1) * 30 \<le> min (p * 30) (length rs - 5)"
    using lt by linarith
  have main: "slice (int ((p - 1) * 30)) (int (min (p * 30) (length rs - 5))) rs
                = take (min (p * 30) (length rs - 5) - (p - 1) * 30) (drop ((p - 1) * 30) rs)"
    using lohi by (intro slice_take_drop) simp_all
  have tail: "slice (- 5) (int (length rs)) rs = drop (length rs - 5) rs"
    using big by (simp add: slice_last5)
  have "\<not> int (length rs) \<le> RECORDS_PER_PAGE + 5"
    using big by (simp add: RECORDS_PER_PAGE_def)
  then show ?thesis
    by (simp only: getPaginatedRows_def Let_def M P lo hi main tail if_False)
qed

lemma hasGap_large:
  assumes big: "35 < length rs" and cur: "1 \<le> cur"
  shows "hasGap rs cur \<longleftrightarrow>
           min (min (nat cur) ((length rs + 24) div 30) * 30) (length rs - 5) < length rs - 5"
proof -
  define m where "m = (length rs + 24) div 30"
  have m: "(m - 1) * 30 < length rs - 5" "length rs - 5 \<le> m * 30"
    using big unfolding m_def by linarith+
  have "hasGap rs cur \<longleftrightarrow> cur < int m"
    using big by (simp add: hasGap_def totalPages_large m_def RECORDS_PER_PAGE_def)
  also have "\<dots> \<longleftrightarrow> min (min (nat cur) m * 30) (length rs - 5) < length rs - 5"
    using m cur by linarith
  finally show ?thesis
    by (simp add: m_def)
qed

lemma render_row_plain:
  "\<not> (hasGap rs cur \<and> 30 \<le> i) \<Longrightarrow> render_row rs cur start (i, r) = [DataRow (start + i + 1) r]"
  by (auto simp: render_row_def Let_def RECORDS_PER_PAGE_def)

lemma render_row_last_five:
  "hasGap rs cur \<Longrightarrow> 30 \<le> i \<Longrightarrow>
   render_row rs cur start (i, r) =
     (if i = 30 then [GapMarker (int (length rs) - 35)] else [])
       @ [DataRow (int (length rs) - 5 + (i - 30) + 1) r]"
  by (simp add: render_row_def Let_def RECORDS_PER_PAGE_def)

lemma upt_5: "[0 ..< 5] = [0, 1, 2, 3, 4 :: nat]"
  by (simp add: upt_rec)

lemma page_window:
  assumes big: "35 < n" and cur: "1 \<le> cur"
  defines "p \<equiv> min (nat cur) ((n + 24) div 30)"
  defines "lo \<equiv> (p - 1) * 30"
  defines "hi \<equiv> min (p * 30) (n - 5)"
  shows "1 \<le> p \<and> lo \<le> hi \<and> hi \<le> n - 5 \<and> (hi < n - 5 \<longrightarrow> hi - lo = 30)
         \<and> (\<not> hi < n - 5 \<longrightarrow> hi = n - 5)"
proof -
  define m where "m = (n + 24) div 30"
  have m: "2 \<le> m" "(m - 1) * 30 < n - 5"
    using big unfolding m_def by linarith+
  have p: "p = min (nat cur) m"
    by (simp add: p_def m_def)
  have p1: "1 \<le> p" "p \<le> m"
    using m cur unfolding p by linarith+
  then have "(p - 1) * 30 \<le> (m - 1) * 30"
    by simp
  then have lo_lt: "lo < n - 5"
    using m unfolding lo_def by linarith
  have "(p - 1) * 30 + 30 = p * 30"
    using p1 by (cases p) simp_all
  then have hi: "hi = min (lo + 30) (n - 5)"
    by (simp add: hi_def lo_def)
  show ?thesis
  proof (cases "lo + 30 < n - 5")
    case True
    then have "hi = lo + 30" by (simp add: hi)
    with True p1 show ?thesis by simp
  next
    case False
    then have "hi = n - 5" by (simp add: hi)
    with lo_lt p1 show ?thesis by simp
  qed
qed

lemma tbody_large:
  assumes big: "35 < length rs" and cur: "1 \<le> cur"
  defines "p \<equiv> min (nat cur) ((length rs + 24) div 30)"
  defines "lo \<equiv> (p - 1) * 30"
  defines "hi \<equiv> min (p * 30) (length rs - 5)"
  shows "tbody rs cur =
     map (\<lambda>j. DataRow (int (lo + j) + 1) (take (hi - lo) (drop lo rs) ! j)) [0 ..< hi - lo]
       @ (if hi < length rs - 5 then [GapMarker (int (length rs) - 35)] else [])
       @ map (\<lambda>off. DataRow (int (length rs - 5 + off) + 1) (drop (length rs - 5) rs ! off)) [0 ..< 5]"
proof -
  define body where "body = take (hi - lo) (drop lo rs)"
  define tail where "tail = drop (length rs - 5) rs"
  have lohi: "lo \<le> hi \<and> hi \<le> length rs - 5 \<and> (hi < length rs - 5 \<longrightarrow> hi - lo = 30)
       \<and> (\<not> hi < length rs - 5 \<longrightarrow> hi = length rs - 5)"
    using page_window [OF big cur] by (simp add: lo_def hi_def p_def)
  have pag: "getPaginatedRows rs cur = (body @ tail, int lo)"
    using getPaginatedRows_large [OF big cur] by (simp add: body_def tail_def lo_def hi_def p_def)
  have gap: "hasGap rs cur \<longleftrightarrow> hi < length rs - 5"
    using hasGap_large [OF big cur] by (simp add: hi_def p_def)
  from lohi have l1: "lo \<le> hi" and l2: "hi \<le> length rs - 5"
    and l3: "hi < length rs - 5 \<Longrightarrow> hi - lo = 30"
    and l4: "\<not> hi < length rs - 5 \<Longrightarrow> hi = length rs - 5"
    by blast+
  have "hi \<le> length rs"
    using l2 by linarith
  then have lb: "length body = hi - lo"
    by (simp add: body_def)
  have lt: "length tail = 5"
    using big by (simp add: tail_def)
  have A: "render_row rs cur (int lo) (int j, (body @ tail) ! j) = [DataRow (int (lo + j) + 1) (body ! j)]"
    if "j < hi - lo" for j
  proof -
    have "\<not> (hasGap rs cur \<and> 30 \<le> int j)"
      using that l3 gap by auto
    then show ?thesis
      using that by (simp add: render_row_plain nth_append lb)
  qed
  have nthB: "(body @ tail) ! (hi - lo + off) = tail ! off" for off
    using nth_append_length_plus [of body tail off] by (simp add: lb)
  have B: "render_row rs cur (int lo) (int (hi - lo + off), (body @ tail) ! (hi - lo + off)) =
             (if hi < length rs - 5 \<and> off = 0 then [GapMarker (int (length rs) - 35)] else [])
               @ [DataRow (int (length rs - 5 + off) + 1) (tail ! off)]"
    for off
  proof (cases "hi < length rs - 5")
    case True
    then have e: "hi - lo = 30" using l3 by simp
    then have "(body @ tail) ! (30 + off) = tail ! off"
      using nth_append_length_plus [of body tail off] by (simp add: lb)
    then show ?thesis
      using e True gap big by (simp add: render_row_last_five)
  next
    case False
    have "hi - lo + lo = hi"
      using l1 by simp
    then have "lo + (hi - lo + off) = length rs - 5 + off"
      using l4 [OF False] by simp
    then have "int lo + int (hi - lo + off) + 1 = int (length rs - 5 + off) + 1"
      by (simp only: of_nat_add [symmetric])
    moreover have "render_row rs cur (int lo) (int (hi - lo + off), tail ! off) =
        [DataRow (int lo + int (hi - lo + off) + 1) (tail ! off)]"
      using False gap by (intro render_row_plain) simp
    ultimately show ?thesis
      using False by (simp only: nthB if_False simp_thms append_Nil)
  qed
  have split: "[0 ..< length (body @ tail)] = [0 ..< hi - lo] @ map (\<lambda>off. hi - lo + off) [0 ..< 5]"
  proof -
    have "[0 ..< hi - lo + 5] = [0 ..< hi - lo] @ [hi - lo ..< hi - lo + 5]"
      by (rule upt_add_eq_append) simp
    moreover have "[hi - lo ..< hi - lo + 5] = map (\<lambda>off. hi - lo + off) [0 ..< 5]"
      using map_add_upt [of "hi - lo" 5] by (simp only: add.commute)
    ultimately show ?thesis
      by (simp only: length_append lb lt)
  qed
  have mapA: "map (\<lambda>j. render_row rs cur (int lo) (int j, (body @ tail) ! j)) [0 ..< hi - lo]
                = map (\<lambda>j. [DataRow (int (lo + j) + 1) (body ! j)]) [0 ..< hi - lo]"
    by (rule map_cong [OF refl], rule A) simp
  have mapB: "map (\<lambda>j. render_row rs cur (int lo) (int j, (body @ tail) ! j))
                  (map (\<lambda>off. hi - lo + off) [0 ..< 5])
                = map (\<lambda>off. (if hi < length rs - 5 \<and> off = 0
                                  then [GapMarker (int (length rs) - 35)] else [])
                                @ [DataRow (int (length rs - 5 + off) + 1) (tail ! off)])
                    [0 ..< 5]"
    by (simp only: map_map o_def B)
  have "tbody rs cur =
          concat (map (\<lambda>j. render_row rs cur (int lo) (int j, (body @ tail) ! j))
                    [0 ..< length (body @ tail)])"
    using lt by (simp add: tbody_nth pag) auto
  also have "\<dots> = concat (map (\<lambda>j. [DataRow (int (lo + j) + 1) (body ! j)]) [0 ..< hi - lo])
                   @ concat (map (\<lambda>off. (if hi < length rs - 5 \<and> off = 0
                                            then [GapMarker (int (length rs) - 35)] else [])
                                          @ [DataRow (int (length rs - 5 + off) + 1) (tail ! off)])
                               [0 ..< 5])"
    by (simp only: split map_append concat_append mapA mapB)
  also have "\<dots> = map (\<lambda>j. DataRow (int (lo + j) + 1) (body ! j)) [0 ..< hi - lo]
       @ (if hi < length rs - 5 then [GapMarker (int (length rs) - 35)] else [])
       @ map (\<lambda>off. DataRow (int (length rs - 5 + off) + 1) (tail ! off)) [0 ..< 5]"
    by (simp add: upt_5)
  finally show ?thesis
    by (simp add: body_def tail_def)
qed

text \<open>The current page starts at 1 and no handler makes it smaller than 1.\<close>

lemma totalPages_positive: "1 \<le> totalPages rs"
proof -
  have "0 \<le> ceil_div (max (int (length rs) - 5) 0) RECORDS_PER_PAGE"
    by (simp add: ceil_div_30 RECORDS_PER_PAGE_def)
  then show ?thesis
    by (simp add: totalPages_def Let_def)
qed

lemma page_numbers_positive:
  "1 \<le> curPage \<Longrightarrow> n \<in> set (page_numbers curPage maxPage) \<Longrightarrow> 1 \<le> n"
  by (auto simp: page_numbers_def split: if_splits)

lemma currentPage_positive:
  "1 \<le> currentPage (handleSort key s)"
  "1 \<le> currentPage (handleSearch term s)"
  "1 \<le> currentPage s \<Longrightarrow>
     (\<And>n. b = PageNumber n \<Longrightarrow> n \<in> set (page_numbers (currentPage s) (totalPages (getProcessedRows P s)))) \<Longrightarrow>
     1 \<le> currentPage (handlePage P b s)"
  using totalPages_positive [of "getProcessedRows P s"]
  by (auto simp: handleSort_def handleSearch_def handlePage_def Let_def
        dest: page_numbers_positive split: page_button.splits)

section \<open>The page shown\<close>

text \<open>
  C5. Let \<open>total\<close> be the number of processed rows and let the requested page be at
  least 1, as it is in every state the handlers reach (\<open>currentPage_positive\<close>). If
  \<open>total \<le> 35\<close>, every row is shown, numbered from 1, with no gap marker. Otherwise,
  with \<open>maxPage = ceil ((total - 5) / 30)\<close> and the page clamped into \<open>[1, maxPage]\<close>, the
  rows shown are \<open>rows[(page - 1) * 30 : min (page * 30) (total - 5)]\<close> followed by the last
  five rows; the gap marker stands between the two parts exactly when they are not
  contiguous; a row of the first part is numbered by its position in the processed rows,
  and the tail row at offset \<open>off\<close> is numbered \<open>total - 5 + off + 1\<close>.
\<close>

theorem pagination_with_pinned_tail:
  assumes cur: "1 \<le> cur"
  shows
    "let total = length rs;
         maxPage = nat (ceil_div (int total - 5) RECORDS_PER_PAGE);
         page = max 1 (min (nat cur) maxPage);
         lo = (page - 1) * 30;
         hi = min (page * 30) (total - 5);
         body = take (hi - lo) (drop lo rs);
         tail = drop (total - 5) rs
     in (total \<le> 35 \<longrightarrow>
           fst (getPaginatedRows rs cur) = rs \<and> \<not> hasGap rs cur
           \<and> tbody rs cur =
               (if rs = [] then [NoMatch]
                else map (\<lambda>j. DataRow (int j + 1) (rs ! j)) [0 ..< total]))
        \<and> (35 < total \<longrightarrow>
           fst (getPaginatedRows rs cur) = body @ tail
           \<and> (hasGap rs cur \<longleftrightarrow> hi < total - 5)
           \<and> tbody rs cur =
               map (\<lambda>j. DataRow (int (lo + j) + 1) (body ! j)) [0 ..< length body]
                 @ (if hi < total - 5 then [GapMarker (int total - 35)] else [])
                 @ map (\<lambda>off. DataRow (int (total - 5 + off) + 1) (tail ! off)) [0 ..< 5])"
proof (cases "length rs \<le> 35")
  case True
  then show ?thesis
    by (simp only: Let_def getPaginatedRows_small hasGap_small tbody_small
          fst_conv not_False_eq_True simp_thms linorder_not_less [symmetric])
next
  case False
  then have big: "35 < length rs" by simp
  define p where "p = min (nat cur) ((length rs + 24) div 30)"
  have w: "1 \<le> p" "(p - 1) * 30 \<le> min (p * 30) (length rs - 5)"
      "min (p * 30) (length rs - 5) \<le> length rs - 5"
    using page_window [OF big cur] by (simp_all add: p_def)
  have "ceil_div (int (length rs) - 5) RECORDS_PER_PAGE = int ((length rs + 24) div 30)"
    using big by (simp add: RECORDS_PER_PAGE_def ceil_div_30 zdiv_int)
  then have page: "max 1 (min (nat cur) (nat (ceil_div (int (length rs) - 5) RECORDS_PER_PAGE))) = p"
    using w(1) by (simp add: p_def)
  have "min (p * 30) (length rs - 5) \<le> length rs"
    using w(3) by linarith
  then have len: "length (take (min (p * 30) (length rs - 5) - (p - 1) * 30) (drop ((p - 1) * 30) rs))
                = min (p * 30) (length rs - 5) - (p - 1) * 30"
    by simp
  show ?thesis
    using False big getPaginatedRows_large [OF big cur] hasGap_large [OF big cur]
      tbody_large [OF big cur]
    by (simp only: Let_def page len p_def [symmetric] fst_conv simp_thms)
qed

theorem pagination_with_pinned_tail_witness:
  "(1::int) \<le> 1 \<and> 35 < length [1 ..< 41 :: nat]
   \<and> fst (getPaginatedRows [1 ..< 41 :: nat] 1) = [1 ..< 31] @ [36 ..< 41]
   \<and> hasGap [1 ..< 41 :: nat] 1
   \<and> length [1 ..< 4 :: nat] \<le> 35
   \<and> tbody [1 ..< 4 :: nat] 1 = [DataRow 1 1, DataRow 2 2, DataRow 3 3]"
proof -
  have c: "(1::int) \<le> 1"
    by simp
  have big: "35 < length [1 ..< 41 :: nat]"
    by simp
  have small: "length [1 ..< 4 :: nat] \<le> 35"
    by simp
  note large_case = pagination_with_pinned_tail [OF c, of "[1 ..< 41 :: nat]", unfolded Let_def,
      THEN conjunct2, THEN mp, OF big]
  note small_case = pagination_with_pinned_tail [OF c, of "[1 ..< 4 :: nat]", unfolded Let_def,
      THEN conjunct1, THEN mp, OF small]
  have "fst (getPaginatedRows [1 ..< 41 :: nat] 1) = [1 ..< 31] @ [36 ..< 41]"
    using large_case [THEN conjunct1] by (simp add: ceil_div_def RECORDS_PER_PAGE_def)
  moreover have "hasGap [1 ..< 41 :: nat] 1"
    using large_case [THEN conjunct2, THEN conjunct1] by (simp add: ceil_div_def RECORDS_PER_PAGE_def)
  moreover have "tbody [1 ..< 4 :: nat] 1 = [DataRow 1 1, DataRow 2 2, DataRow 3 3]"
    using small_case [THEN conjunct2, THEN conjunct2] by (simp add: upt_rec)
  ultimately show ?thesis
    using c big small by blast
qed


section \<open>Properties of the edits\<close>

text \<open>The new row of a rename depends on the own properties of the old row only.\<close>

lemma renamed_row_snoc:
  "renamed_row old new \<lparr>props = ps @ [(k, x)], proto = q\<rparr> =
     set_prop (renamed_row old new \<lparr>props = ps, proto = q\<rparr>) (if k = old then new else k) x"
  by (simp add: renamed_row_def)

lemma renamed_row_props_only:
  "renamed_row old new r = renamed_row old new \<lparr>props = props r, proto = Object_prototype\<rparr>"
  by (simp add: renamed_row_def)

lemma renamed_row_keys_subset:
  "fst ` set (props (renamed_row old new \<lparr>props = ps, proto = q\<rparr>))
     \<subseteq> (\<lambda>k. if k = old then new else k) ` fst ` set ps"
proof (induction ps rule: rev_induct)
  case Nil
  show ?case by (simp add: renamed_row_def empty_object_def)
next
  case (snoc kx ps)
  obtain k x where kx: "kx = (k, x)" by (cases kx)
  define k' where "k' = (if k = old then new else k)"
  let ?R = "renamed_row old new \<lparr>props = ps, proto = q\<rparr>"
  have "fst ` set (props (set_prop ?R k' x)) \<subseteq> insert k' (fst ` set (props ?R))"
    by (rule set_prop_keys_subset)
  also have "\<dots> \<subseteq> insert k' ((\<lambda>k. if k = old then new else k) ` fst ` set ps)"
    using snoc by blast
  also have "\<dots> = (\<lambda>k. if k = old then new else k) ` fst ` set (ps @ [(k, x)])"
    by (auto simp: k'_def)
  finally show ?case
    unfolding kx renamed_row_snoc k'_def .
qed

lemma renamed_row_distinct: "distinct (map fst (props (renamed_row old new \<lparr>props = ps, proto = q\<rparr>)))"
proof (induction ps rule: rev_induct)
  case Nil
  show ?case by (simp add: renamed_row_def empty_object_def)
next
  case (snoc kx ps)
  then show ?case
    by (cases kx) (simp add: renamed_row_snoc distinct_set_prop)
qed






lemma handleRenameHeader_success:
  assumes "trim new \<noteq> []" and "new = old \<or> new \<notin> set (headers (data s))"
  shows "handleRenameHeader old new s =
     s\<lparr>heap := heap s @ map (\<lambda>r. renamed_row old new (heap s ! r)) (rows (data s)),
       data := \<lparr>headers = map (\<lambda>h. if h = old then new else h) (headers (data s)),
                rows = [length (heap s) ..< length (heap s) + length (rows (data s))]\<rparr>,
       editingHeader := None\<rparr>"
  using assms by (auto simp: handleRenameHeader_def alloc_rows_def)

section \<open>Renaming a header\<close>




section \<open>The identity of rows under edits\<close>

lemma handleRemoveColumn_result:
  "handleRemoveColumn c s =
     s\<lparr>heap := heap s @ map (\<lambda>r. rest_without c (heap s ! r)) (rows (data s)),
       data := \<lparr>headers = filter (\<lambda>h. h \<noteq> c) (headers (data s)),
                rows = [length (heap s) ..< length (heap s) + length (rows (data s))]\<rparr>\<rparr>"
  by (simp add: handleRemoveColumn_def alloc_rows_def)







section \<open>The invariant of the table\<close>

lemma foldl_set_prop_keys:
  "fst ` set (props (foldl (\<lambda>obj x. set_prop obj (kf x) (vf x)) r0 xs))
     \<subseteq> fst ` set (props r0) \<union> kf ` set xs"
proof (induction xs arbitrary: r0)
  case Nil
  show ?case by simp
next
  case (Cons x xs)
  have "fst ` set (props (foldl (\<lambda>obj x. set_prop obj (kf x) (vf x)) (set_prop r0 (kf x) (vf x)) xs))
          \<subseteq> fst ` set (props (set_prop r0 (kf x) (vf x))) \<union> kf ` set xs"
    by (rule Cons.IH)
  also have "\<dots> \<subseteq> insert (kf x) (fst ` set (props r0)) \<union> kf ` set xs"
    using set_prop_keys_subset [of r0 "kf x" "vf x"] by blast
  finally show ?case
    by auto
qed

lemma keys_within_headers_alloc:
  assumes "\<forall>obj \<in> set objs. fst ` set (props obj) \<subseteq> set hdrs" and "n = length objs"
  shows "keys_within_headers (h @ objs) \<lparr>headers = hdrs, rows = [length h ..< length h + n]\<rparr>"
proof -
  have "fst ` set (props ((h @ objs) ! r)) \<subseteq> set hdrs" if "r \<in> set [length h ..< length h + n]" for r
  proof -
    from that assms(2) have "(h @ objs) ! r = objs ! (r - length h)" "r - length h < length objs"
      by (auto simp: nth_append)
    with assms(1) show ?thesis
      by (metis nth_mem)
  qed
  then show ?thesis
    by (simp add: keys_within_headers_def)
qed

text \<open>The CSV parser and the three edits establish and keep the invariant.\<close>

lemma parseCSV_keys_within_headers:
  "parseCSV text h = Inr (t, h') \<Longrightarrow> keys_within_headers h' t"
proof -
  assume "parseCSV text h = Inr (t, h')"
  then have t: "t = \<lparr>headers = map trim (split_str CHR '','' (hd (split_str (CHR 0x0A) (trim text)))),
           rows = [length h ..< length h + length (tl (split_str (CHR 0x0A) (trim text)))]\<rparr>"
    and h': "h' = h @ map (csv_row (map trim (split_str CHR '','' (hd (split_str (CHR 0x0A) (trim text))))))
                (tl (split_str (CHR 0x0A) (trim text)))"
    unfolding parseCSV_result by simp_all
  show ?thesis
    unfolding t h' by (rule keys_within_headers_alloc) (simp_all add: csv_row_keys)
qed

lemma handleRemoveColumn_keys_within_headers:
  assumes "keys_within_headers (heap s) (data s)"
  shows "keys_within_headers (heap (handleRemoveColumn c s)) (data (handleRemoveColumn c s))"
proof -
  have "\<forall>obj \<in> set (map (\<lambda>r. rest_without c (heap s ! r)) (rows (data s))).
          fst ` set (props obj) \<subseteq> set (filter (\<lambda>h. h \<noteq> c) (headers (data s)))"
    using assms by (auto simp: keys_within_headers_def rest_without_def)
  from keys_within_headers_alloc [OF this, of "length (rows (data s))" "heap s"] show ?thesis
    by (simp add: handleRemoveColumn_result)
qed

lemma handleRemoveRowByRef_keys_within_headers:
  "keys_within_headers (heap s) (data s) \<Longrightarrow>
   keys_within_headers (heap (handleRemoveRowByRef x s)) (data (handleRemoveRowByRef x s))"
  by (simp add: keys_within_headers_def handleRemoveRowByRef_def)

lemma handleRenameHeader_keys_within_headers:
  assumes inv: "keys_within_headers (heap s) (data s)"
  shows "keys_within_headers (heap (handleRenameHeader old new s)) (data (handleRenameHeader old new s))"
proof (cases "trim new \<noteq> [] \<and> (new = old \<or> new \<notin> set (headers (data s)))")
  case True
  have "\<forall>obj \<in> set (map (\<lambda>r. renamed_row old new (heap s ! r)) (rows (data s))).
          fst ` set (props obj) \<subseteq> set (map (\<lambda>h. if h = old then new else h) (headers (data s)))"
  proof (intro ballI)
    fix obj
    assume "obj \<in> set (map (\<lambda>r. renamed_row old new (heap s ! r)) (rows (data s)))"
    then obtain r where r: "r \<in> set (rows (data s))" "obj = renamed_row old new (heap s ! r)"
      by auto
    have "fst ` set (props obj) \<subseteq> (\<lambda>k. if k = old then new else k) ` fst ` set (props (heap s ! r))"
      unfolding r(2) using renamed_row_keys_subset [of old new "props (heap s ! r)" Object_prototype]
        renamed_row_props_only [of old new "heap s ! r"]
      by simp
    also have "\<dots> \<subseteq> (\<lambda>k. if k = old then new else k) ` set (headers (data s))"
      using inv r(1) by (auto simp: keys_within_headers_def)
    finally show "fst ` set (props obj) \<subseteq> set (map (\<lambda>h. if h = old then new else h) (headers (data s)))"
      by simp
  qed
  from keys_within_headers_alloc [OF this, of "length (rows (data s))" "heap s"] True show ?thesis
    by (simp add: handleRenameHeader_success)
next
  case False
  with inv show ?thesis
    by (auto simp: handleRenameHeader_def)
qed

text \<open>The spreadsheet parser establishes it for a sheet whose range starts in column A.\<close>

lemma parseSheet_keys_within_headers:
  assumes res: "parseSheet sh h = Inr (t, h')"
    and colA: "(case sheet_ref sh of None \<Rightarrow> 0 | Some r \<Rightarrow> s_c r) = 0"
  shows "keys_within_headers h' t"
proof -
  define rng where
    "rng = (case sheet_ref sh of None \<Rightarrow> \<lparr>s_r = 0, s_c = 0, e_r = 0, e_c = 0\<rparr> | Some r \<Rightarrow> r)"
  define cols where "cols = [s_c rng ..< Suc (e_c rng)]"
  define hr where
    "hr = (case find (\<lambda>r. list_ex (cell_has_data sh r) cols) [s_r rng ..< Suc (e_r rng)] of
             None \<Rightarrow> 0 | Some r \<Rightarrow> r)"
  define ds where
    "ds = (case find (\<lambda>r. list_ex (cell_has_data sh r) cols) [s_r rng ..< Suc (e_r rng)] of
             None \<Rightarrow> 0 | Some r \<Rightarrow> r + 1)"
  define hdrs where
    "hdrs = map (\<lambda>col. let headerValue = cell_text sh hr col
                        in if headerValue \<noteq> [] then headerValue
                           else ''Column '' @ show_nat (col + 1)) cols"
  define rowData where
    "rowData = (\<lambda>r. foldl (\<lambda>obj col. set_prop obj (header_key hdrs col) (VStr (cell_text sh r col)))
                        empty_object cols)"
  define objs where
    "objs = map rowData (filter (\<lambda>r. list_ex (\<lambda>col. cell_text sh r col \<noteq> []) cols)
                           [ds ..< Suc (e_r rng)])"
  have "parseSheet sh h =
     (if length hdrs = 0 then Inl (Error ''No data found in Excel file'')
      else Inr (\<lparr>headers = hdrs, rows = [length h ..< length h + length objs]\<rparr>, h @ objs))"
    unfolding parseSheet_def alloc_rows_def Let_def prod.case
      objs_def rowData_def hdrs_def ds_def hr_def cols_def rng_def Let_def ..
  with res have t: "t = \<lparr>headers = hdrs, rows = [length h ..< length h + length objs]\<rparr>"
    and h': "h' = h @ objs"
    by (simp_all split: if_splits)
  have "s_c rng = 0"
    using colA by (simp add: rng_def split: option.splits)
  then have "length hdrs = Suc (e_c rng)" and c: "set cols = {..< Suc (e_c rng)}"
    by (auto simp: hdrs_def cols_def simp del: upt_Suc)
  then have "header_key hdrs col \<in> set hdrs" if "col \<in> set cols" for col
    using that by (simp add: header_key_def)
  then have "fst ` set (props (rowData r)) \<subseteq> set hdrs" for r
    using foldl_set_prop_keys [of "header_key hdrs" "\<lambda>col. VStr (cell_text sh r col)" empty_object cols]
    by (auto simp: rowData_def empty_object_def)
  then have "\<forall>obj \<in> set objs. fst ` set (props obj) \<subseteq> set hdrs"
    by (auto simp: objs_def)
  then show ?thesis
    unfolding t h' by (rule keys_within_headers_alloc) simp
qed

text \<open>
  C6. Every table the parser produces has the keys of its rows among its headers. The CSV
  parser and the edits keep this (the lemmas above); the spreadsheet parser does not. It
  collects the headers of the columns \<open>s.c .. e.c\<close> of the range into an array that starts
  at index 0, and then looks the header of column \<open>col\<close> up at index \<open>col\<close>: for a sheet
  whose range is \<open>B1:C2\<close>, with the headers \<open>x, y\<close> and the data row \<open>1, 2\<close>, the row
  object is \<open>{y: "1", undefined: "2"}\<close>, and its key \<open>undefined\<close> is not a header.
\<close>

theorem parseSheet_range_from_column_B:
  "parseSheet
     \<lparr>sheet_ref = Some \<lparr>s_r = 0, s_c = 1, e_r = 1, e_c = 2\<rparr>,
      sheet_cells = [((0, 1), \<lparr>cell_w = Some ''x'', cell_v = Some (CStr ''x'')\<rparr>),
                     ((0, 2), \<lparr>cell_w = Some ''y'', cell_v = Some (CStr ''y'')\<rparr>),
                     ((1, 1), \<lparr>cell_w = Some ''1'', cell_v = Some (CNum 1)\<rparr>),
                     ((1, 2), \<lparr>cell_w = Some ''2'', cell_v = Some (CNum 2)\<rparr>)]\<rparr> []
     = Inr (\<lparr>headers = [''x'', ''y''], rows = [0]\<rparr>,
            [\<lparr>props = [(''y'', VStr ''1''), (''undefined'', VStr ''2'')], proto = Object_prototype\<rparr>])
   \<and> ''undefined'' \<in> fst ` set [(''y'', VStr ''1''), (''undefined'', VStr ''2'')]
   \<and> ''undefined'' \<notin> set [''x'', ''y'']"
  by code_simp

text \<open>The table of this sheet does not satisfy the invariant.\<close>

lemma parseSheet_breaks_keys_within_headers:
  "\<not> keys_within_headers
       [\<lparr>props = [(''y'', VStr ''1''), (''undefined'', VStr ''2'')], proto = Object_prototype\<rparr>]
       \<lparr>headers = [''x'', ''y''], rows = [0]\<rparr>"
  by code_simp


section \<open>The rows of a parsed table\<close>

text \<open>
  Both parsers build rows that hold strings only, each key once, with the prototype
  \<open>Object.prototype\<close> and no own key \<open>__proto__\<close>, and the three edits keep the rows so.
\<close>

lemma string_row_iff:
  "string_row r \<longleftrightarrow>
     proto r = Object_prototype \<and> distinct (map fst (props r))
     \<and> ''__proto__'' \<notin> fst ` set (props r)
     \<and> (\<forall>k x. map_of (props r) k = Some x \<longrightarrow> (\<exists>t. x = VStr t))"
proof -
  have "list_all (\<lambda>kv. case snd kv of VStr t \<Rightarrow> True | _ \<Rightarrow> False) (props r)
          = (\<forall>k x. map_of (props r) k = Some x \<longrightarrow> (\<exists>t. x = VStr t))"
    if d: "distinct (map fst (props r))"
  proof
    assume a: "list_all (\<lambda>kv. case snd kv of VStr t \<Rightarrow> True | _ \<Rightarrow> False) (props r)"
    show "\<forall>k x. map_of (props r) k = Some x \<longrightarrow> (\<exists>t. x = VStr t)"
    proof (intro allI impI)
      fix k x
      assume "map_of (props r) k = Some x"
      then have "(k, x) \<in> set (props r)"
        by (rule map_of_SomeD)
      with a have "case x of VStr t \<Rightarrow> True | _ \<Rightarrow> False"
        by (auto simp: list_all_iff)
      then show "\<exists>t. x = VStr t"
        by (cases x) simp_all
    qed
  next
    assume a: "\<forall>k x. map_of (props r) k = Some x \<longrightarrow> (\<exists>t. x = VStr t)"
    have "case snd kv of VStr t \<Rightarrow> True | _ \<Rightarrow> False" if "kv \<in> set (props r)" for kv
    proof -
      from that have "(fst kv, snd kv) \<in> set (props r)"
        by simp
      then have "map_of (props r) (fst kv) = Some (snd kv)"
        by (rule map_of_is_SomeI [OF d])
      with a obtain t where "snd kv = VStr t"
        by blast
      then show ?thesis
        by simp
    qed
    then show "list_all (\<lambda>kv. case snd kv of VStr t \<Rightarrow> True | _ \<Rightarrow> False) (props r)"
      by (simp add: list_all_iff)
  qed
  then show ?thesis
    unfolding string_row_def by blast
qed

lemma string_row_empty_object: "string_row empty_object"
  by (simp add: string_row_def empty_object_def)

lemma set_prop_string_row:
  assumes "string_row r"
  shows "string_row (set_prop r k (VStr t))"
proof (cases "k = ''__proto__''")
  case True
  with assms have "set_prop r k (VStr t) = r"
    by (simp add: string_row_def set_prop_setter)
  with assms show ?thesis
    by simp
next
  case False
  then have st: "fst ` set (props (set_prop r k (VStr t))) = insert k (fst ` set (props r))"
    "map_of (props (set_prop r k (VStr t))) = (map_of (props r))(k \<mapsto> VStr t)"
    "proto (set_prop r k (VStr t)) = proto r"
    by (simp_all add: set_prop_stores)
  from assms have r: "proto r = Object_prototype" "distinct (map fst (props r))"
    "''__proto__'' \<notin> fst ` set (props r)"
    "\<And>k x. map_of (props r) k = Some x \<Longrightarrow> \<exists>t. x = VStr t"
    unfolding string_row_iff by blast+
  have "\<exists>u. x = VStr u" if "map_of (props (set_prop r k (VStr t))) k' = Some x" for k' x
    using that r(4) [of k' x] unfolding st(2) by (cases "k' = k") auto
  then show ?thesis
    unfolding string_row_iff st(1,3) using r(1,3) False distinct_set_prop [OF r(2), of k "VStr t"]
    by blast
qed

lemma foldl_set_prop_string_row:
  "string_row r0 \<Longrightarrow> string_row (foldl (\<lambda>obj x. set_prop obj (kf x) (VStr (vf x))) r0 xs)"
  by (induction xs arbitrary: r0) (simp_all add: set_prop_string_row)

lemma csv_row_string_row: "string_row (csv_row hs line)"
proof (induction hs rule: rev_induct)
  case Nil
  show ?case by (simp add: csv_row_def string_row_empty_object)
next
  case (snoc x hs)
  then show ?case
    by (simp add: csv_row_snoc set_prop_string_row)
qed

lemma rest_without_string_row:
  assumes "string_row r"
  shows "string_row (rest_without c r)"
  using assms by (auto simp: string_row_def rest_without_def distinct_map_filter list_all_iff)

lemma renamed_row_string_row:
  assumes "string_row r"
  shows "string_row (renamed_row old new r)"
proof -
  have "string_row (renamed_row old new \<lparr>props = ps, proto = q\<rparr>)"
    if "list_all (\<lambda>kv. case snd kv of VStr t \<Rightarrow> True | _ \<Rightarrow> False) ps" for ps q
    using that
  proof (induction ps rule: rev_induct)
    case Nil
    show ?case by (simp add: renamed_row_def string_row_empty_object)
  next
    case (snoc kx ps)
    obtain k x where kx: "kx = (k, x)" by (cases kx)
    with snoc.prems obtain t where x: "x = VStr t"
      by (cases x) simp_all
    from snoc have "string_row (renamed_row old new \<lparr>props = ps, proto = q\<rparr>)"
      by simp
    then show ?case
      unfolding kx x renamed_row_snoc by (rule set_prop_string_row)
  qed
  from this [of "props r" Object_prototype] assms show ?thesis
    using renamed_row_props_only [of old new r] by (simp add: string_row_def)
qed

lemma string_rows_alloc:
  assumes "\<forall>obj \<in> set objs. string_row obj" and "n = length objs"
  shows "string_rows (h @ objs) \<lparr>headers = hdrs, rows = [length h ..< length h + n]\<rparr>"
proof -
  have "string_row ((h @ objs) ! r)" if "r \<in> set [length h ..< length h + n]" for r
  proof -
    from that assms(2) have "(h @ objs) ! r = objs ! (r - length h)" "r - length h < length objs"
      by (auto simp: nth_append)
    with assms(1) show ?thesis
      by (metis nth_mem)
  qed
  then show ?thesis
    by (simp add: string_rows_def)
qed

lemma parseCSV_string_rows:
  "parseCSV text h = Inr (t, h') \<Longrightarrow> string_rows h' t"
proof -
  assume "parseCSV text h = Inr (t, h')"
  then have t: "t = \<lparr>headers = map trim (split_str CHR '','' (hd (split_str (CHR 0x0A) (trim text)))),
           rows = [length h ..< length h + length (tl (split_str (CHR 0x0A) (trim text)))]\<rparr>"
    and h': "h' = h @ map (csv_row (map trim (split_str CHR '','' (hd (split_str (CHR 0x0A) (trim text))))))
                (tl (split_str (CHR 0x0A) (trim text)))"
    unfolding parseCSV_result by simp_all
  show ?thesis
    unfolding t h' by (rule string_rows_alloc) (simp_all add: csv_row_string_row)
qed

lemma parseSheet_string_rows:
  assumes res: "parseSheet sh h = Inr (t, h')"
  shows "string_rows h' t"
proof -
  define rng where
    "rng = (case sheet_ref sh of None \<Rightarrow> \<lparr>s_r = 0, s_c = 0, e_r = 0, e_c = 0\<rparr> | Some r \<Rightarrow> r)"
  define cols where "cols = [s_c rng ..< Suc (e_c rng)]"
  define hr where
    "hr = (case find (\<lambda>r. list_ex (cell_has_data sh r) cols) [s_r rng ..< Suc (e_r rng)] of
             None \<Rightarrow> 0 | Some r \<Rightarrow> r)"
  define ds where
    "ds = (case find (\<lambda>r. list_ex (cell_has_data sh r) cols) [s_r rng ..< Suc (e_r rng)] of
             None \<Rightarrow> 0 | Some r \<Rightarrow> r + 1)"
  define hdrs where
    "hdrs = map (\<lambda>col. let headerValue = cell_text sh hr col
                        in if headerValue \<noteq> [] then headerValue
                           else ''Column '' @ show_nat (col + 1)) cols"
  define rowData where
    "rowData = (\<lambda>r. foldl (\<lambda>obj col. set_prop obj (header_key hdrs col) (VStr (cell_text sh r col)))
                        empty_object cols)"
  define objs where
    "objs = map rowData (filter (\<lambda>r. list_ex (\<lambda>col. cell_text sh r col \<noteq> []) cols)
                           [ds ..< Suc (e_r rng)])"
  have "parseSheet sh h =
     (if length hdrs = 0 then Inl (Error ''No data found in Excel file'')
      else Inr (\<lparr>headers = hdrs, rows = [length h ..< length h + length objs]\<rparr>, h @ objs))"
    unfolding parseSheet_def alloc_rows_def Let_def prod.case
      objs_def rowData_def hdrs_def ds_def hr_def cols_def rng_def Let_def ..
  with res have t: "t = \<lparr>headers = hdrs, rows = [length h ..< length h + length objs]\<rparr>"
    and h': "h' = h @ objs"
    by (simp_all split: if_splits)
  have "string_row (rowData r)" for r
    unfolding rowData_def by (rule foldl_set_prop_string_row) (rule string_row_empty_object)
  then have "\<forall>obj \<in> set objs. string_row obj"
    by (auto simp: objs_def)
  then show ?thesis
    unfolding t h' by (rule string_rows_alloc) simp
qed

lemma handleRemoveColumn_string_rows:
  assumes "string_rows (heap s) (data s)"
  shows "string_rows (heap (handleRemoveColumn c s)) (data (handleRemoveColumn c s))"
proof -
  have "\<forall>obj \<in> set (map (\<lambda>r. rest_without c (heap s ! r)) (rows (data s))). string_row obj"
    using assms by (auto simp: string_rows_def rest_without_string_row)
  from string_rows_alloc [OF this, of "length (rows (data s))" "heap s"] show ?thesis
    by (simp add: handleRemoveColumn_result)
qed

lemma handleRemoveRowByRef_string_rows:
  "string_rows (heap s) (data s) \<Longrightarrow>
   string_rows (heap (handleRemoveRowByRef x s)) (data (handleRemoveRowByRef x s))"
  by (simp add: string_rows_def handleRemoveRowByRef_def)

lemma handleRenameHeader_string_rows:
  assumes inv: "string_rows (heap s) (data s)"
  shows "string_rows (heap (handleRenameHeader old new s)) (data (handleRenameHeader old new s))"
proof (cases "trim new \<noteq> [] \<and> (new = old \<or> new \<notin> set (headers (data s)))")
  case True
  have "\<forall>obj \<in> set (map (\<lambda>r. renamed_row old new (heap s ! r)) (rows (data s))). string_row obj"
    using inv by (auto simp: string_rows_def renamed_row_string_row)
  from string_rows_alloc [OF this, of "length (rows (data s))" "heap s"] True show ?thesis
    by (simp add: handleRenameHeader_success)
next
  case False
  with inv show ?thesis
    by (auto simp: handleRenameHeader_def)
qed

text \<open>The references of a table point into the heap, and they are distinct objects.\<close>

lemma parseCSV_refs:
  assumes "parseCSV text h = Inr (t, h')"
  shows "\<forall>r \<in> set (rows t). r < length h'" and "distinct (rows t)"
proof -
  from assms have t: "rows t = [length h ..< length h + length (tl (split_str (CHR 0x0A) (trim text)))]"
    and h': "length h' = length h + length (tl (split_str (CHR 0x0A) (trim text)))"
    unfolding parseCSV_result by auto
  show "\<forall>r \<in> set (rows t). r < length h'" and "distinct (rows t)"
    unfolding t h' by simp_all
qed

lemma handleRemoveColumn_refs:
  "\<forall>r \<in> set (rows (data (handleRemoveColumn c s))). r < length (heap (handleRemoveColumn c s))"
  "distinct (rows (data (handleRemoveColumn c s)))"
  by (simp_all add: handleRemoveColumn_result)

lemma handleRemoveRowByRef_refs:
  assumes "\<forall>r \<in> set (rows (data s)). r < length (heap s)" and "distinct (rows (data s))"
  shows "\<forall>r \<in> set (rows (data (handleRemoveRowByRef x s))). r < length (heap (handleRemoveRowByRef x s))"
    and "distinct (rows (data (handleRemoveRowByRef x s)))"
  using assms by (simp_all add: handleRemoveRowByRef_def)

lemma handleRenameHeader_refused:
  assumes "\<not> (trim new \<noteq> [] \<and> (new = old \<or> new \<notin> set (headers (data s))))"
  shows "heap (handleRenameHeader old new s) = heap s" and "data (handleRenameHeader old new s) = data s"
  using assms by (auto simp: handleRenameHeader_def)

lemma handleRenameHeader_refs:
  assumes "\<forall>r \<in> set (rows (data s)). r < length (heap s)" and "distinct (rows (data s))"
  shows "\<forall>r \<in> set (rows (data (handleRenameHeader old new s))). r < length (heap (handleRenameHeader old new s))"
    and "distinct (rows (data (handleRenameHeader old new s)))"
proof -
  show "\<forall>r \<in> set (rows (data (handleRenameHeader old new s))). r < length (heap (handleRenameHeader old new s))"
  proof (cases "trim new \<noteq> [] \<and> (new = old \<or> new \<notin> set (headers (data s)))")
    case True
    then show ?thesis by (simp add: handleRenameHeader_success)
  next
    case False
    with assms(1) show ?thesis by (simp add: handleRenameHeader_refused)
  qed
  show "distinct (rows (data (handleRenameHeader old new s)))"
  proof (cases "trim new \<noteq> [] \<and> (new = old \<or> new \<notin> set (headers (data s)))")
    case True
    then show ?thesis by (simp add: handleRenameHeader_success)
  next
    case False
    with assms(2) show ?thesis by (simp add: handleRenameHeader_refused)
  qed
qed

section \<open>The search filter\<close>

lemma row_matches_iff:
  "row_matches t r \<longleftrightarrow> (\<exists>kv \<in> set (props r). str_includes (toLowerCase (String (snd kv))) t)"
  by (auto simp: row_matches_def list_ex_iff)

lemma search_null_example:
  "getProcessedRows P
     \<lparr>heap = [\<lparr>props = [(''a'', VNull)], proto = Object_prototype\<rparr>,
              \<lparr>props = [(''a'', VStr ''x'')], proto = Object_prototype\<rparr>],
      data = \<lparr>headers = [''a'', ''b''], rows = [0, 1]\<rparr>,
      sortConfig = None, searchTerm = ''Null'', editingHeader = None,
      editingHeaderValue = [], currentPage = 1, alerts = []\<rparr> = [0]"
  by code_simp

lemma search_undefined_example:
  "get_prop \<lparr>props = [(''a'', VStr ''x'')], proto = Object_prototype\<rparr> ''b'' = Prim VUndef
   \<and> getProcessedRows P
     \<lparr>heap = [\<lparr>props = [(''a'', VNull)], proto = Object_prototype\<rparr>,
              \<lparr>props = [(''a'', VStr ''x'')], proto = Object_prototype\<rparr>],
      data = \<lparr>headers = [''a'', ''b''], rows = [0, 1]\<rparr>,
      sortConfig = None, searchTerm = ''undefined'', editingHeader = None,
      editingHeaderValue = [], currentPage = 1, alerts = []\<rparr> = []"
  by code_simp

text \<open>
  C10. The filter searches the values a row object holds, each coerced with \<open>String\<close> and
  lowercased: a row matches exactly when one of its own values contains the lowercased
  term. A \<open>null\<close> value is searched as the text \<open>null\<close> and an \<open>undefined\<close> value as
  \<open>undefined\<close>, although both display as the empty string. In the table with the headers
  \<open>a, b\<close> and the rows \<open>{a: null}\<close>, \<open>{a: "x"}\<close> the term \<open>Null\<close> keeps the first row; the
  term \<open>undefined\<close> keeps no row, although \<open>row["b"]\<close> is \<open>undefined\<close> in both: a key that a
  row does not hold is not searched.
\<close>

theorem filter_searches_null_as_text:
  "(row_matches t r \<longleftrightarrow> (\<exists>kv \<in> set (props r). str_includes (toLowerCase (String (snd kv))) t))
   \<and> ((k, VNull) \<in> set (props r) \<longrightarrow> row_matches (toLowerCase ''null'') r)
   \<and> ((k, VUndef) \<in> set (props r) \<longrightarrow> row_matches (toLowerCase ''undefined'') r)
   \<and> formatCellValue P (Prim VNull) header = Inr []
   \<and> formatCellValue P (Prim VUndef) header = Inr []
   \<and> getProcessedRows P
        \<lparr>heap = [\<lparr>props = [(''a'', VNull)], proto = Object_prototype\<rparr>,
              \<lparr>props = [(''a'', VStr ''x'')], proto = Object_prototype\<rparr>],
         data = \<lparr>headers = [''a'', ''b''], rows = [0, 1]\<rparr>,
         sortConfig = None, searchTerm = ''Null'', editingHeader = None,
         editingHeaderValue = [], currentPage = 1, alerts = []\<rparr> = [0]
   \<and> get_prop \<lparr>props = [(''a'', VStr ''x'')], proto = Object_prototype\<rparr> ''b'' = Prim VUndef
   \<and> getProcessedRows P
        \<lparr>heap = [\<lparr>props = [(''a'', VNull)], proto = Object_prototype\<rparr>,
              \<lparr>props = [(''a'', VStr ''x'')], proto = Object_prototype\<rparr>],
         data = \<lparr>headers = [''a'', ''b''], rows = [0, 1]\<rparr>,
         sortConfig = None, searchTerm = ''undefined'', editingHeader = None,
         editingHeaderValue = [], currentPage = 1, alerts = []\<rparr> = []"
proof -
  have "toLowerCase ''null'' = ''null''" "toLowerCase ''undefined'' = ''undefined''"
    by code_simp+
  then have "(k, VNull) \<in> set (props r) \<longrightarrow> row_matches (toLowerCase ''null'') r"
    and "(k, VUndef) \<in> set (props r) \<longrightarrow> row_matches (toLowerCase ''undefined'') r"
    by (force simp: row_matches_iff str_includes_def)+
  then show ?thesis
    using row_matches_iff [of t r] search_null_example [of P] search_undefined_example [of P]
    by simp
qed

theorem filter_searches_null_as_text_witness:
  "(''a'', VNull) \<in> set [(''a'', VNull), (''b'', VStr ''x'')]
   \<and> row_matches (toLowerCase ''null'')
       \<lparr>props = [(''a'', VNull), (''b'', VStr ''x'')], proto = Object_prototype\<rparr>
   \<and> (''b'', VUndef) \<in> set [(''a'', VNull), (''b'', VUndef)]
   \<and> row_matches (toLowerCase ''undefined'')
       \<lparr>props = [(''a'', VNull), (''b'', VUndef)], proto = Object_prototype\<rparr>"
  using filter_searches_null_as_text
      [where t = "[]" and r = "\<lparr>props = [(''a'', VNull), (''b'', VStr ''x'')], proto = Object_prototype\<rparr>" and k = "''a''"]
    filter_searches_null_as_text
      [where t = "[]" and r = "\<lparr>props = [(''a'', VNull), (''b'', VUndef)], proto = Object_prototype\<rparr>" and k = "''b''"]
  by simp


section \<open>The text of a cell\<close>

lemma length_show_nat_unfold:
  "length (show_nat n) = (if n < 10 then 1 else Suc (length (show_nat (n div 10))))"
  by (subst show_nat.simps) simp

lemma length_show_nat_pos: "0 < length (show_nat n)"
  by (subst show_nat.simps) simp

lemma length_show_nat_four: "length (show_nat n) = 4 \<longleftrightarrow> 1000 \<le> n \<and> n \<le> 9999"
proof -
  have l: "length (show_nat n) =
      (if n < 10 then 1 else if n div 10 < 10 then 2 else if n div 100 < 10 then 3
       else if n div 1000 < 10 then 4 else 4 + length (show_nat (n div 10000)))"
    by (subst length_show_nat_unfold, subst length_show_nat_unfold, subst length_show_nat_unfold,
        subst length_show_nat_unfold, simp add: div_mult2_eq [symmetric])
  have e: "(n div 10 < 10) = (n < 100)" "(n div 100 < 10) = (n < 1000)" "(n div 1000 < 10) = (n < 10000)"
    by (simp_all add: div_less_iff_less_mult)
  show ?thesis
    unfolding l e using length_show_nat_pos [of "n div 10000"] by auto
qed

lemma formatCellValue_total: "\<exists>out. formatCellValue P x header = Inr out"
  by (cases "(P, x, header)" rule: formatCellValue.cases) (auto split: sum.splits option.splits)

text \<open>
  C9, as claimed: a date that parses is rendered with a four-digit year. The year is
  printed in full, with as many digits as it has: on a platform where
  \<open>new Date("0999-12-31")\<close> is the last day of the year 999, the cell of a date column
  shows \<open>Dec 31, 999\<close>.
\<close>

theorem three_digit_year_counterexample:
  "isDateColumn ''date'' \<and> \<not> hasMonthName ''0999-12-31''
   \<and> formatCellValue
        \<lparr>new_Date = (\<lambda>s. if s = ''0999-12-31'' then Inr (Some \<lparr>year = 999, month = 11, day = 31\<rparr>)
                           else Inr None),
         native_source = (\<lambda>k. ''function () { [native code] }''),
         unordered_sort = (\<lambda>cmp xs. xs)\<rparr>
        (Prim (VStr ''0999-12-31'')) ''date'' = Inr ''Dec 31, 999''
   \<and> length ''999'' = 3"
  by code_simp

text \<open>
  C9, amended. \<open>formatCellValue\<close> returns the empty string for \<open>null\<close> and \<open>undefined\<close>.
  For a string in a column whose lowercased header contains \<open>date\<close> or \<open>time\<close>: a value
  that contains one of \<open>Jan .. Dec\<close> is returned unchanged; otherwise a value the platform
  parses as a date is rendered as the abbreviated month, the day, a comma and the year in
  full, which has four digits exactly for the years 1000 to 9999; a value it does not
  parse, or on which it throws, is returned unchanged. In any other column a string is
  returned unchanged. For every value, header and platform the function returns a string:
  it never throws.
\<close>

theorem formatCellValue_cases:
  "formatCellValue P (Prim VNull) header = Inr []
   \<and> formatCellValue P (Prim VUndef) header = Inr []
   \<and> (isDateColumn header \<and> hasMonthName s \<longrightarrow> formatCellValue P (Prim (VStr s)) header = Inr s)
   \<and> (isDateColumn header \<and> \<not> hasMonthName s \<and> new_Date P s = Inr (Some d) \<and> month d < 12 \<longrightarrow>
        formatCellValue P (Prim (VStr s)) header =
          Inr (monthNames ! month d @ '' '' @ show_nat (day d) @ '', '' @ show_nat (year d))
        \<and> (length (show_nat (year d)) = 4 \<longleftrightarrow> 1000 \<le> year d \<and> year d \<le> 9999))
   \<and> (isDateColumn header \<and> \<not> hasMonthName s \<and> (new_Date P s = Inr None \<or> new_Date P s = Inl e) \<longrightarrow>
        formatCellValue P (Prim (VStr s)) header = Inr s)
   \<and> (\<not> isDateColumn header \<longrightarrow> formatCellValue P (Prim (VStr s)) header = Inr s)
   \<and> (\<exists>out. formatCellValue P x header = Inr out)"
  using formatCellValue_total [of P x header] length_show_nat_four [of "year d"]
  by (auto simp: toLocaleDateString_def)

theorem formatCellValue_cases_witness:
  "isDateColumn ''Start Date'' \<and> hasMonthName ''15 Jan 2024''
   \<and> formatCellValue
        \<lparr>new_Date = (\<lambda>s. Inr None), native_source = (\<lambda>k. []), unordered_sort = (\<lambda>cmp xs. xs)\<rparr>
        (Prim (VStr ''15 Jan 2024'')) ''Start Date'' = Inr ''15 Jan 2024''
   \<and> \<not> hasMonthName ''2024-01-15''
   \<and> formatCellValue
        \<lparr>new_Date = (\<lambda>s. Inr (Some \<lparr>year = 2024, month = 0, day = 15\<rparr>)),
         native_source = (\<lambda>k. []), unordered_sort = (\<lambda>cmp xs. xs)\<rparr>
        (Prim (VStr ''2024-01-15'')) ''Start Date'' = Inr ''Jan 15, 2024''
   \<and> length (show_nat 2024) = 4
   \<and> formatCellValue
        \<lparr>new_Date = (\<lambda>s. Inl (Error ''RangeError'')), native_source = (\<lambda>k. []),
         unordered_sort = (\<lambda>cmp xs. xs)\<rparr>
        (Prim (VStr ''soon'')) ''Start Date'' = Inr ''soon''
   \<and> \<not> isDateColumn ''name''
   \<and> formatCellValue
        \<lparr>new_Date = (\<lambda>s. Inr None), native_source = (\<lambda>k. []), unordered_sort = (\<lambda>cmp xs. xs)\<rparr>
        (Prim (VStr ''Ann'')) ''name'' = Inr ''Ann''"
proof -
  have h: "isDateColumn ''Start Date''" "hasMonthName ''15 Jan 2024''" "\<not> hasMonthName ''2024-01-15''"
    "\<not> hasMonthName ''soon''" "\<not> isDateColumn ''name''"
    by code_simp+
  have s: "monthNames ! 0 @ '' '' @ show_nat 15 @ '', '' @ show_nat 2024 = ''Jan 15, 2024''"
    by code_simp
  show ?thesis
    using h s
      formatCellValue_cases [where P = "\<lparr>new_Date = (\<lambda>s. Inr None), native_source = (\<lambda>k. []),
            unordered_sort = (\<lambda>cmp xs. xs)\<rparr>"
          and header = "''Start Date''" and s = "''15 Jan 2024''"
          and d = "\<lparr>year = 0, month = 0, day = 0\<rparr>" and e = "Error []" and x = "Prim VNull"]
      formatCellValue_cases [where P = "\<lparr>new_Date = (\<lambda>s. Inr (Some \<lparr>year = 2024, month = 0, day = 15\<rparr>)),
            native_source = (\<lambda>k. []), unordered_sort = (\<lambda>cmp xs. xs)\<rparr>"
          and header = "''Start Date''" and s = "''2024-01-15''"
          and d = "\<lparr>year = 2024, month = 0, day = 15\<rparr>" and e = "Error []" and x = "Prim VNull"]
      formatCellValue_cases [where P = "\<lparr>new_Date = (\<lambda>s. Inl (Error ''RangeError'')),
            native_source = (\<lambda>k. []), unordered_sort = (\<lambda>cmp xs. xs)\<rparr>"
          and header = "''Start Date''" and s = "''soon''"
          and d = "\<lparr>year = 0, month = 0, day = 0\<rparr>" and e = "Error ''RangeError''" and x = "Prim VNull"]
      formatCellValue_cases [where P = "\<lparr>new_Date = (\<lambda>s. Inr None), native_source = (\<lambda>k. []),
            unordered_sort = (\<lambda>cmp xs. xs)\<rparr>"
          and header = "''name''" and s = "''Ann''"
          and d = "\<lparr>year = 0, month = 0, day = 0\<rparr>" and e = "Error []" and x = "Prim VNull"]
    by simp
qed

section \<open>Properties of the sort\<close>

lemma set_insort_cmp: "set (insort_cmp cmp x ys) = insert x (set ys)"
  by (induction ys) auto

lemma stable_sort_Cons: "stable_sort cmp (x # xs) = insort_cmp cmp x (stable_sort cmp xs)"
  by (simp add: stable_sort_def)

lemma set_stable_sort: "set (stable_sort cmp xs) = set xs"
  by (induction xs) (simp_all add: stable_sort_def set_insort_cmp)

lemma length_insort_cmp: "length (insort_cmp cmp x ys) = Suc (length ys)"
  by (induction ys) auto

lemma length_stable_sort: "length (stable_sort cmp xs) = length xs"
  by (induction xs) (simp_all add: stable_sort_def length_insort_cmp)

lemma count_list_insort_cmp: "count_list (insort_cmp cmp x ys) y = count_list (x # ys) y"
  by (induction ys) auto

lemma count_list_stable_sort: "count_list (stable_sort cmp xs) y = count_list xs y"
  by (induction xs) (simp_all add: stable_sort_def count_list_insort_cmp)

lemma insort_cmp_before_block:
  "\<forall>n \<in> set ns. cmp x n \<le> 0 \<Longrightarrow> insort_cmp cmp x (ds @ ns) = insort_cmp cmp x ds @ ns"
proof (induction ds)
  case Nil
  then show ?case by (cases ns) simp_all
next
  case (Cons d ds)
  then show ?case by simp
qed

lemma insort_cmp_after_block:
  "\<forall>d \<in> set ds. 0 < cmp x d \<Longrightarrow> insort_cmp cmp x (ds @ ns) = ds @ insort_cmp cmp x ns"
  by (induction ds) simp_all

text \<open>When every element of one class goes in front of every element of the other, the
  sort is the sort of the first class followed by the sort of the second.\<close>

lemma stable_sort_two_classes:
  assumes "\<And>x y. x \<in> set xs \<Longrightarrow> y \<in> set xs \<Longrightarrow> Q x \<Longrightarrow> \<not> Q y \<Longrightarrow> cmp x y \<le> 0 \<and> 0 < cmp y x"
  shows "stable_sort cmp xs = stable_sort cmp (filter Q xs) @ stable_sort cmp (filter (\<lambda>x. \<not> Q x) xs)"
  using assms
proof (induction xs)
  case Nil
  show ?case by (simp add: stable_sort_def)
next
  case (Cons x xs)
  have IH: "stable_sort cmp xs = stable_sort cmp (filter Q xs) @ stable_sort cmp (filter (\<lambda>x. \<not> Q x) xs)"
    using Cons by simp
  show ?case
  proof (cases "Q x")
    case True
    have "\<forall>n \<in> set (stable_sort cmp (filter (\<lambda>x. \<not> Q x) xs)). cmp x n \<le> 0"
      using Cons.prems [of x] True by (simp add: set_stable_sort)
    then show ?thesis
      using True IH by (simp add: stable_sort_Cons insort_cmp_before_block)
  next
    case False
    have "\<forall>d \<in> set (stable_sort cmp (filter Q xs)). 0 < cmp x d"
      using Cons.prems [of _ x] False by (simp add: set_stable_sort)
    then show ?thesis
      using False IH by (simp add: stable_sort_Cons insort_cmp_after_block)
  qed
qed

lemma sorted_wrt_insort_cmp:
  assumes "transp R" and "\<And>a b. R a b \<or> R b a"
    and "sorted_wrt R ys" and "\<forall>y \<in> set ys. (cmp x y \<le> 0) = R x y"
  shows "sorted_wrt R (insort_cmp cmp x ys)"
  using assms(3,4)
proof (induction ys)
  case Nil
  show ?case by simp
next
  case (Cons y ys)
  show ?case
  proof (cases "cmp x y \<le> 0")
    case True
    with Cons.prems have "R x y" by simp
    with Cons.prems(1) assms(1) have "\<forall>z \<in> set (y # ys). R x z"
      by (auto dest: transpD)
    with True Cons.prems(1) show ?thesis by simp
  next
    case False
    with Cons.prems have "\<not> R x y" by simp
    with assms(2) have "R y x" by blast
    with False Cons show ?thesis
      by (simp add: set_insort_cmp)
  qed
qed

lemma sorted_wrt_stable_sort:
  assumes "transp R" and "\<And>a b. R a b \<or> R b a"
    and "\<forall>a \<in> set xs. \<forall>b \<in> set xs. (cmp a b \<le> 0) = R a b"
  shows "sorted_wrt R (stable_sort cmp xs)"
  using assms(3)
proof (induction xs)
  case Nil
  show ?case by (simp add: stable_sort_def)
next
  case (Cons x xs)
  then have "sorted_wrt R (stable_sort cmp xs)" by simp
  moreover have "\<forall>y \<in> set (stable_sort cmp xs). (cmp x y \<le> 0) = R x y"
    using Cons.prems by (simp add: set_stable_sort)
  ultimately show ?case
    unfolding stable_sort_Cons by (rule sorted_wrt_insort_cmp [OF assms(1,2)])
qed

lemma distinct_map_insort_cmp:
  "distinct (map k (insort_cmp cmp x ys)) = distinct (map k (x # ys))"
  by (induction ys) (auto simp: set_insort_cmp)

lemma distinct_map_stable_sort: "distinct (map k (stable_sort cmp xs)) = distinct (map k xs)"
proof (induction xs)
  case Nil
  show ?case by (simp add: stable_sort_def)
next
  case (Cons x xs)
  then show ?case
    by (simp add: stable_sort_Cons distinct_map_insort_cmp set_stable_sort)
qed

text \<open>Two comparators that order the elements by a key, one upwards and one downwards,
  sort a list without ties into mirror images.\<close>

lemma stable_sort_reverse:
  fixes k :: "'a \<Rightarrow> 'k :: linorder"
  assumes up: "\<forall>a \<in> set xs. \<forall>b \<in> set xs. (cmp_up a b \<le> 0) = (k a \<le> k b)"
    and down: "\<forall>a \<in> set xs. \<forall>b \<in> set xs. (cmp_down a b \<le> 0) = (k b \<le> k a)"
    and ties: "distinct (map k xs)"
  shows "stable_sort cmp_down xs = rev (stable_sort cmp_up xs)"
proof -
  have "sorted_wrt (\<lambda>a b. k a \<le> k b) (stable_sort cmp_up xs)"
    by (rule sorted_wrt_stable_sort [OF _ _ up]) (auto intro: transpI)
  then have 1: "sorted (map k (stable_sort cmp_up xs))"
    by (simp add: sorted_map)
  have "sorted_wrt (\<lambda>a b. k b \<le> k a) (stable_sort cmp_down xs)"
    by (rule sorted_wrt_stable_sort [OF _ _ down]) (auto intro: transpI)
  then have 2: "sorted (map k (rev (stable_sort cmp_down xs)))"
    by (simp add: sorted_map sorted_wrt_rev)
  have "map k (stable_sort cmp_up xs) = map k (rev (stable_sort cmp_down xs))"
    using 1 2 ties
    by (intro sorted_distinct_set_unique)
       (simp_all add: distinct_map_stable_sort set_stable_sort distinct_rev rev_map [symmetric] del: rev_map)
  moreover have "inj_on k (set (stable_sort cmp_up xs) \<union> set (rev (stable_sort cmp_down xs)))"
    using ties by (simp add: set_stable_sort distinct_map)
  ultimately have "stable_sort cmp_up xs = rev (stable_sort cmp_down xs)"
    by (simp only: inj_on_map_eq_map)
  then show ?thesis
    by simp
qed

text \<open>The sort is stable: it moves an element only past elements it compares greater
  than, so the elements of a class that no such step enters keep their order.\<close>

lemma filter_insort_cmp_out: "\<not> Q x \<Longrightarrow> filter Q (insort_cmp cmp x ys) = filter Q ys"
  by (induction ys) simp_all

lemma filter_insort_cmp_in:
  "Q x \<Longrightarrow> \<forall>y \<in> set ys. 0 < cmp x y \<longrightarrow> \<not> Q y \<Longrightarrow> filter Q (insort_cmp cmp x ys) = x # filter Q ys"
proof (induction ys)
  case Nil
  then show ?case by simp
next
  case (Cons y ys)
  show ?case
  proof (cases "cmp x y \<le> 0")
    case True
    with Cons.prems(1) show ?thesis by simp
  next
    case False
    with Cons.prems(2) have "\<not> Q y" by simp
    moreover have "filter Q (insort_cmp cmp x ys) = x # filter Q ys"
      using Cons.IH [OF Cons.prems(1)] Cons.prems(2) by simp
    ultimately show ?thesis
      using False by simp
  qed
qed

lemma stable_sort_keeps_order:
  assumes "\<And>x y. x \<in> set xs \<Longrightarrow> y \<in> set xs \<Longrightarrow> Q x \<Longrightarrow> 0 < cmp x y \<Longrightarrow> \<not> Q y"
  shows "filter Q (stable_sort cmp xs) = filter Q xs"
  using assms
proof (induction xs)
  case Nil
  show ?case by (simp add: stable_sort_def)
next
  case (Cons x xs)
  have IH: "filter Q (stable_sort cmp xs) = filter Q xs"
  proof (rule Cons.IH)
    fix a b
    assume "a \<in> set xs" "b \<in> set xs" "Q a" "0 < cmp a b"
    then show "\<not> Q b"
      using Cons.prems [of a b] by simp
  qed
  show ?case
  proof (cases "Q x")
    case True
    have "\<forall>y \<in> set (stable_sort cmp xs). 0 < cmp x y \<longrightarrow> \<not> Q y"
    proof (intro ballI impI)
      fix y
      assume "y \<in> set (stable_sort cmp xs)" "0 < cmp x y"
      then show "\<not> Q y"
        using Cons.prems [of x y] True by (simp add: set_stable_sort)
    qed
    with True have "filter Q (insort_cmp cmp x (stable_sort cmp xs)) = x # filter Q (stable_sort cmp xs)"
      by (rule filter_insort_cmp_in [where Q = Q and x = x])
    with True IH show ?thesis
      unfolding stable_sort_Cons by simp
  next
    case False
    then have "filter Q (insort_cmp cmp x (stable_sort cmp xs)) = filter Q (stable_sort cmp xs)"
      by (rule filter_insort_cmp_out)
    with False IH show ?thesis
      unfolding stable_sort_Cons by simp
  qed
qed

lemma consistent_facts:
  assumes "consistent_order cmp xs" and "a \<in> set xs" and "b \<in> set xs" and "c \<in> set xs"
  shows "cmp a a = 0" and "cmp a b = 0 \<Longrightarrow> cmp b a = 0"
    and "cmp a b = 0 \<Longrightarrow> cmp b c = 0 \<Longrightarrow> cmp a c = 0"
    and "cmp a b < 0 \<Longrightarrow> cmp b c < 0 \<Longrightarrow> cmp a c < 0"
    and "cmp a b > 0 \<Longrightarrow> cmp b c > 0 \<Longrightarrow> cmp a c > 0"
proof -
  from assms have all: "cmp a a = 0
        \<and> (cmp a b = 0 \<longrightarrow> cmp b a = 0)
        \<and> (cmp a b = 0 \<and> cmp b c = 0 \<longrightarrow> cmp a c = 0)
        \<and> (cmp a b < 0 \<and> cmp b c < 0 \<longrightarrow> cmp a c < 0)
        \<and> (cmp a b > 0 \<and> cmp b c > 0 \<longrightarrow> cmp a c > 0)"
    unfolding consistent_order_def by (elim ballE [of _ _ a] ballE [of _ _ b] ballE [of _ _ c]) simp_all
  from all show "cmp a a = 0" by simp
  from all show "cmp a b = 0 \<Longrightarrow> cmp b a = 0" by simp
  from all show "cmp a b = 0 \<Longrightarrow> cmp b c = 0 \<Longrightarrow> cmp a c = 0" by simp
  from all show "cmp a b < 0 \<Longrightarrow> cmp b c < 0 \<Longrightarrow> cmp a c < 0" by simp
  from all show "cmp a b > 0 \<Longrightarrow> cmp b c > 0 \<Longrightarrow> cmp a c > 0" by simp
qed

lemma stable_sort_stable:
  assumes con: "consistent_order cmp xs" and r: "r \<in> set xs"
  shows "filter (\<lambda>x. cmp x r = 0) (stable_sort cmp xs) = filter (\<lambda>x. cmp x r = 0) xs"
proof (rule stable_sort_keeps_order)
  fix x y
  assume x: "x \<in> set xs" and y: "y \<in> set xs" and xr: "cmp x r = 0" and xy0: "0 < cmp x y"
  then have xy: "cmp x r = 0 \<and> 0 < cmp x y"
    by simp
  show "cmp y r \<noteq> 0"
  proof
    assume "cmp y r = 0"
    then have "cmp r y = 0"
      by (rule consistent_facts(2) [OF con y r r])
    with xy have "cmp x y = 0"
      using consistent_facts(3) [OF con x r y] by simp
    with xy show False by simp
  qed
qed

text \<open>A comparator that ranks the elements by a class and, inside a class, by a key of a
  linear order, is a consistent ordering; so is its mirror image.\<close>

lemma consistent_ranked:
  fixes k :: "'a \<Rightarrow> 'k :: linorder" and rk :: "'a \<Rightarrow> nat"
  assumes lt: "\<And>a b. a \<in> set xs \<Longrightarrow> b \<in> set xs \<Longrightarrow>
                 (cmp a b < 0) = (rk a < rk b \<or> (rk a = rk b \<and> k a < k b))"
    and eq: "\<And>a b. a \<in> set xs \<Longrightarrow> b \<in> set xs \<Longrightarrow> (cmp a b = 0) = (rk a = rk b \<and> k a = k b)"
  shows "consistent_order cmp xs"
  unfolding consistent_order_def
proof (intro ballI)
  fix a b c
  assume a: "a \<in> set xs" and b: "b \<in> set xs" and c: "c \<in> set xs"
  have gt: "(0 < cmp x y) = (rk y < rk x \<or> (rk x = rk y \<and> k y < k x))"
    if "x \<in> set xs" "y \<in> set xs" for x y
  proof -
    have "(0 < cmp x y) = (\<not> cmp x y < 0 \<and> cmp x y \<noteq> 0)"
      by linarith
    also have "\<dots> = (rk y < rk x \<or> (rk x = rk y \<and> k y < k x))"
      unfolding lt [OF that] eq [OF that] by auto
    finally show ?thesis .
  qed
  have 1: "cmp a a = 0"
    by (simp add: eq [OF a a])
  have 2: "cmp a b = 0 \<longrightarrow> cmp b a = 0"
    unfolding eq [OF a b] eq [OF b a] by simp
  have 3: "cmp a b = 0 \<and> cmp b c = 0 \<longrightarrow> cmp a c = 0"
    unfolding eq [OF a b] eq [OF b c] eq [OF a c] by simp
  have 4: "cmp a b < 0 \<and> cmp b c < 0 \<longrightarrow> cmp a c < 0"
    unfolding lt [OF a b] lt [OF b c] lt [OF a c] by auto
  have 5: "cmp a b > 0 \<and> cmp b c > 0 \<longrightarrow> cmp a c > 0"
    unfolding gt [OF a b] gt [OF b c] gt [OF a c] by auto
  from 1 2 3 4 5
  show "cmp a a = 0
        \<and> (cmp a b = 0 \<longrightarrow> cmp b a = 0)
        \<and> (cmp a b = 0 \<and> cmp b c = 0 \<longrightarrow> cmp a c = 0)
        \<and> (cmp a b < 0 \<and> cmp b c < 0 \<longrightarrow> cmp a c < 0)
        \<and> (cmp a b > 0 \<and> cmp b c > 0 \<longrightarrow> cmp a c > 0)"
    by (intro conjI)
qed

lemma consistent_mirror:
  assumes "consistent_order (\<lambda>a b. cmp b a) xs"
  shows "consistent_order cmp xs"
  unfolding consistent_order_def
proof (intro ballI)
  fix a b c
  assume a: "a \<in> set xs" and b: "b \<in> set xs" and c: "c \<in> set xs"
  note f = consistent_facts [OF assms]
  have 1: "cmp a a = 0"
    using f(1) [OF a a a] .
  have 2: "cmp a b = 0 \<longrightarrow> cmp b a = 0"
    using f(2) [OF b a a] by simp
  have 3: "cmp a b = 0 \<and> cmp b c = 0 \<longrightarrow> cmp a c = 0"
    using f(3) [OF c b a] by simp
  have 4: "cmp a b < 0 \<and> cmp b c < 0 \<longrightarrow> cmp a c < 0"
    using f(4) [OF c b a] by simp
  have 5: "cmp a b > 0 \<and> cmp b c > 0 \<longrightarrow> cmp a c > 0"
    using f(5) [OF c b a] by simp
  from 1 2 3 4 5
  show "cmp a a = 0
        \<and> (cmp a b = 0 \<longrightarrow> cmp b a = 0)
        \<and> (cmp a b = 0 \<and> cmp b c = 0 \<longrightarrow> cmp a c = 0)
        \<and> (cmp a b < 0 \<and> cmp b c < 0 \<longrightarrow> cmp a c < 0)
        \<and> (cmp a b > 0 \<and> cmp b c > 0 \<longrightarrow> cmp a c > 0)"
    by (intro conjI)
qed

text \<open>The comparator of the table.\<close>

lemma sort_reads_Some [simp]: "sort_reads (Some n) = n"
  by (simp add: sort_reads_def)

lemma sort_reads_zero: "v \<noteq> None \<Longrightarrow> (sort_reads v = 0) = (v = Some 0)"
  by (cases v) simp_all

lemma compare_rows_defined_nullish:
  assumes "\<not> is_nullish (get_prop a key)" and "is_nullish (get_prop b key)"
  shows "compare_rows P key dir a b = Some (- 1)" and "compare_rows P key dir b a = Some 1"
proof -
  from assms have "get_prop a key \<noteq> get_prop b key"
    by auto
  with assms show "compare_rows P key dir a b = Some (- 1)" and "compare_rows P key dir b a = Some 1"
    by (auto simp: compare_rows_def Let_def strict_equal_def)
qed

lemma compare_rows_nullish:
  assumes "is_nullish (get_prop a key)" and "get_prop a key = get_prop b key"
  shows "compare_rows P key dir a b = Some 0"
proof -
  from assms(1) have "get_prop a key \<noteq> Prim VNaN"
    by auto
  with assms(2) show ?thesis
    by (simp add: compare_rows_def Let_def strict_equal_def)
qed

lemma compare_rows_numbers:
  assumes "get_prop a key = Prim (VNum x)" and "get_prop b key = Prim (VNum y)"
  shows "compare_rows P key Asc a b = Some (x - y)" and "compare_rows P key Desc a b = Some (y - x)"
  using assms by (simp_all add: compare_rows_def Let_def strict_equal_def)

lemma compare_rows_others:
  assumes "\<not> is_nullish (get_prop a key)" and "\<not> is_nullish (get_prop b key)"
    and "\<not> is_number (get_prop a key)" and "\<not> is_number (get_prop b key)"
  shows "compare_rows P key dir a b \<noteq> None"
    and "(sort_reads (compare_rows P key Asc a b) < 0)
           = (toLowerCase (String_any P (get_prop a key)) < toLowerCase (String_any P (get_prop b key)))"
    and "(sort_reads (compare_rows P key Desc a b) < 0)
           = (toLowerCase (String_any P (get_prop b key)) < toLowerCase (String_any P (get_prop a key)))"
    and "(sort_reads (compare_rows P key dir a b) = 0)
           = (toLowerCase (String_any P (get_prop a key)) = toLowerCase (String_any P (get_prop b key)))"
proof -
  let ?a = "toLowerCase (String_any P (get_prop a key))"
  let ?b = "toLowerCase (String_any P (get_prop b key))"
  have same: "?a = ?b" if "strict_equal (get_prop a key) (get_prop b key)"
    using that by (simp add: strict_equal_def)
  have cmp: "compare_rows P key d a b =
      Some (if strict_equal (get_prop a key) (get_prop b key) then 0
            else if ?a < ?b then (if d = Asc then - 1 else 1)
            else if ?a > ?b then (if d = Asc then 1 else - 1) else 0)" for d
    using assms by (simp add: compare_rows_def Let_def)
  show "compare_rows P key dir a b \<noteq> None"
    unfolding cmp by simp
  show "(sort_reads (compare_rows P key Asc a b) < 0) = (?a < ?b)"
    unfolding cmp using same by auto
  show "(sort_reads (compare_rows P key Desc a b) < 0) = (?b < ?a)"
    unfolding cmp using same by auto
  show "(sort_reads (compare_rows P key dir a b) = 0) = (?a = ?b)"
    unfolding cmp using same by (cases dir) auto
qed

text \<open>
  When the \<open>null\<close> and \<open>undefined\<close> sort values of the rows are one and the same value, and
  the comparator orders the rows with a defined value by a key, upwards or downwards, the
  comparator is a consistent comparison function for the rows.
\<close>

lemma compare_rows_by_key:
  fixes K :: "ref \<Rightarrow> 'k :: linorder"
  assumes N: "\<And>r r'. r \<in> set xs \<Longrightarrow> r' \<in> set xs \<Longrightarrow> is_nullish (get_prop (h ! r) key) \<Longrightarrow>
                is_nullish (get_prop (h ! r') key) \<Longrightarrow> get_prop (h ! r) key = get_prop (h ! r') key"
    and some: "\<And>a b. a \<in> set xs \<Longrightarrow> b \<in> set xs \<Longrightarrow> \<not> is_nullish (get_prop (h ! a) key) \<Longrightarrow>
                \<not> is_nullish (get_prop (h ! b) key) \<Longrightarrow> compare_rows P key dir (h ! a) (h ! b) \<noteq> None"
    and lt: "\<And>a b. a \<in> set xs \<Longrightarrow> b \<in> set xs \<Longrightarrow> \<not> is_nullish (get_prop (h ! a) key) \<Longrightarrow>
                \<not> is_nullish (get_prop (h ! b) key) \<Longrightarrow>
                (sort_reads (compare_rows P key dir (h ! a) (h ! b)) < 0)
                  = (if dir = Asc then K a < K b else K b < K a)"
    and eq: "\<And>a b. a \<in> set xs \<Longrightarrow> b \<in> set xs \<Longrightarrow> \<not> is_nullish (get_prop (h ! a) key) \<Longrightarrow>
                \<not> is_nullish (get_prop (h ! b) key) \<Longrightarrow>
                (sort_reads (compare_rows P key dir (h ! a) (h ! b)) = 0) = (K a = K b)"
  shows "consistent (\<lambda>a b. compare_rows P key dir (h ! a) (h ! b)) xs"
proof -
  define cmp where "cmp = (\<lambda>a b. sort_reads (compare_rows P key dir (h ! a) (h ! b)))"
  define nullish where "nullish = (\<lambda>r. is_nullish (get_prop (h ! r) key))"
  define k where "k = (\<lambda>r. if nullish r then K (hd xs) else K r)"
  have nn: "cmp a b = 0" if "a \<in> set xs" "b \<in> set xs" "nullish a" "nullish b" for a b
  proof -
    have "compare_rows P key dir (h ! a) (h ! b) = Some 0"
      using that N [of a b] by (intro compare_rows_nullish) (simp_all add: nullish_def)
    then show ?thesis
      by (simp add: cmp_def)
  qed
  have dn: "cmp a b < 0" "0 < cmp b a" if "\<not> nullish a" "nullish b" for a b
    unfolding cmp_def using that by (simp_all add: nullish_def compare_rows_defined_nullish)
  have lt': "(cmp a b < 0) = (if dir = Asc then K a < K b else K b < K a)"
    and eq': "(cmp a b = 0) = (K a = K b)"
    if "a \<in> set xs" "b \<in> set xs" "\<not> nullish a" "\<not> nullish b" for a b
    unfolding cmp_def using that lt [of a b] eq [of a b] by (simp_all add: nullish_def)
  have number: "compare_rows P key dir (h ! a) (h ! b) \<noteq> None" if ab: "a \<in> set xs" "b \<in> set xs" for a b
  proof -
    consider "nullish a" "nullish b" | "\<not> nullish a" "nullish b" | "nullish a" "\<not> nullish b"
      | "\<not> nullish a" "\<not> nullish b"
      by blast
    then show ?thesis
    proof cases
      case 1
      with N [OF ab] have "compare_rows P key dir (h ! a) (h ! b) = Some 0"
        by (intro compare_rows_nullish) (simp_all add: nullish_def)
      then show ?thesis by simp
    next
      case 2
      then show ?thesis by (simp add: nullish_def compare_rows_defined_nullish)
    next
      case 3
      then show ?thesis by (simp add: nullish_def compare_rows_defined_nullish)
    next
      case 4
      with some [OF ab] show ?thesis by (simp add: nullish_def)
    qed
  qed
  have "consistent_order cmp xs"
  proof (cases dir)
    case Asc
    define rk where "rk = (\<lambda>r. if nullish r then 1 :: nat else 0)"
    show ?thesis
    proof (rule consistent_ranked [where rk = rk and k = k])
      fix a b
      assume ab: "a \<in> set xs" "b \<in> set xs"
      consider "nullish a" "nullish b" | "\<not> nullish a" "nullish b" | "nullish a" "\<not> nullish b"
        | "\<not> nullish a" "\<not> nullish b"
        by blast
      then show "(cmp a b < 0) = (rk a < rk b \<or> (rk a = rk b \<and> k a < k b))"
      proof cases
        case 1
        with nn [OF ab] show ?thesis by (simp add: rk_def k_def)
      next
        case 2
        with dn(1) [of a b] show ?thesis by (simp add: rk_def k_def)
      next
        case 3
        with dn(2) [of b a] show ?thesis by (simp add: rk_def k_def)
      next
        case 4
        with lt' [OF ab] Asc show ?thesis by (simp add: rk_def k_def)
      qed
    next
      fix a b
      assume ab: "a \<in> set xs" "b \<in> set xs"
      consider "nullish a" "nullish b" | "\<not> nullish a" "nullish b" | "nullish a" "\<not> nullish b"
        | "\<not> nullish a" "\<not> nullish b"
        by blast
      then show "(cmp a b = 0) = (rk a = rk b \<and> k a = k b)"
      proof cases
        case 1
        with nn [OF ab] show ?thesis by (simp add: rk_def k_def)
      next
        case 2
        with dn(1) [of a b] show ?thesis by (simp add: rk_def k_def)
      next
        case 3
        with dn(2) [of b a] show ?thesis by (simp add: rk_def k_def)
      next
        case 4
        with eq' [OF ab] show ?thesis by (simp add: rk_def k_def)
      qed
    qed
  next
    case Desc
    define rk where "rk = (\<lambda>r. if nullish r then 0 :: nat else 1)"
    have "consistent_order (\<lambda>a b. cmp b a) xs"
    proof (rule consistent_ranked [where rk = rk and k = k])
      fix a b
      assume ab: "a \<in> set xs" "b \<in> set xs"
      consider "nullish a" "nullish b" | "\<not> nullish a" "nullish b" | "nullish a" "\<not> nullish b"
        | "\<not> nullish a" "\<not> nullish b"
        by blast
      then show "(cmp b a < 0) = (rk a < rk b \<or> (rk a = rk b \<and> k a < k b))"
      proof cases
        case 1
        with nn [OF ab(2,1)] show ?thesis by (simp add: rk_def k_def)
      next
        case 2
        with dn(2) [of a b] show ?thesis by (simp add: rk_def k_def)
      next
        case 3
        with dn(1) [of b a] show ?thesis by (simp add: rk_def k_def)
      next
        case 4
        with lt' [OF ab(2,1)] Desc show ?thesis by (simp add: rk_def k_def)
      qed
    next
      fix a b
      assume ab: "a \<in> set xs" "b \<in> set xs"
      consider "nullish a" "nullish b" | "\<not> nullish a" "nullish b" | "nullish a" "\<not> nullish b"
        | "\<not> nullish a" "\<not> nullish b"
        by blast
      then show "(cmp b a = 0) = (rk a = rk b \<and> k a = k b)"
      proof cases
        case 1
        with nn [OF ab(2,1)] show ?thesis by (simp add: rk_def k_def)
      next
        case 2
        with dn(2) [of a b] show ?thesis by (simp add: rk_def k_def)
      next
        case 3
        with dn(1) [of b a] show ?thesis by (simp add: rk_def k_def)
      next
        case 4
        with eq' [OF ab(2,1)] show ?thesis by (auto simp: rk_def k_def)
      qed
    qed
    then show ?thesis
      by (rule consistent_mirror)
  qed
  with number show ?thesis
    by (simp add: consistent_def cmp_def)
qed

lemma compare_rows_consistent:
  assumes N: "\<forall>r \<in> set xs. \<forall>r' \<in> set xs.
                is_nullish (get_prop (h ! r) key) \<and> is_nullish (get_prop (h ! r') key) \<longrightarrow>
                get_prop (h ! r) key = get_prop (h ! r') key"
    and V: "(\<forall>r \<in> set xs. \<not> is_nullish (get_prop (h ! r) key) \<longrightarrow> (\<exists>n. get_prop (h ! r) key = Prim (VNum n)))
            \<or> (\<forall>r \<in> set xs. \<not> is_number (get_prop (h ! r) key))"
  shows "consistent (\<lambda>a b. compare_rows P key dir (h ! a) (h ! b)) xs"
  using V
proof
  assume num: "\<forall>r \<in> set xs. \<not> is_nullish (get_prop (h ! r) key) \<longrightarrow> (\<exists>n. get_prop (h ! r) key = Prim (VNum n))"
  define K where "K = (\<lambda>r. case get_prop (h ! r) key of Prim (VNum n) \<Rightarrow> n | _ \<Rightarrow> 0)"
  have val: "get_prop (h ! r) key = Prim (VNum (K r))"
    if "r \<in> set xs" "\<not> is_nullish (get_prop (h ! r) key)" for r
    using num that by (auto simp: K_def)
  show ?thesis
  proof (rule compare_rows_by_key [where K = K])
    fix r r'
    assume "r \<in> set xs" "r' \<in> set xs" "is_nullish (get_prop (h ! r) key)"
      "is_nullish (get_prop (h ! r') key)"
    with N show "get_prop (h ! r) key = get_prop (h ! r') key"
      by blast
  next
    fix a b
    assume ab: "a \<in> set xs" "b \<in> set xs" "\<not> is_nullish (get_prop (h ! a) key)"
      "\<not> is_nullish (get_prop (h ! b) key)"
    show "compare_rows P key dir (h ! a) (h ! b) \<noteq> None"
      using compare_rows_numbers [OF val [OF ab(1,3)] val [OF ab(2,4)], of P]
      by (cases dir) simp_all
    show "(sort_reads (compare_rows P key dir (h ! a) (h ! b)) < 0)
            = (if dir = Asc then K a < K b else K b < K a)"
      using compare_rows_numbers [OF val [OF ab(1,3)] val [OF ab(2,4)], of P]
      by (cases dir) simp_all
    show "(sort_reads (compare_rows P key dir (h ! a) (h ! b)) = 0) = (K a = K b)"
      using compare_rows_numbers [OF val [OF ab(1,3)] val [OF ab(2,4)], of P]
      by (cases dir) auto
  qed
next
  assume oth: "\<forall>r \<in> set xs. \<not> is_number (get_prop (h ! r) key)"
  define K where "K = (\<lambda>r. toLowerCase (String_any P (get_prop (h ! r) key)))"
  show ?thesis
  proof (rule compare_rows_by_key [where K = K])
    fix r r'
    assume "r \<in> set xs" "r' \<in> set xs" "is_nullish (get_prop (h ! r) key)"
      "is_nullish (get_prop (h ! r') key)"
    with N show "get_prop (h ! r) key = get_prop (h ! r') key"
      by blast
  next
    fix a b
    assume ab: "a \<in> set xs" "b \<in> set xs" "\<not> is_nullish (get_prop (h ! a) key)"
      "\<not> is_nullish (get_prop (h ! b) key)"
    then have n: "\<not> is_number (get_prop (h ! a) key)" "\<not> is_number (get_prop (h ! b) key)"
      using oth by simp_all
    show "compare_rows P key dir (h ! a) (h ! b) \<noteq> None"
      by (rule compare_rows_others(1) [OF ab(3,4) n])
    show "(sort_reads (compare_rows P key dir (h ! a) (h ! b)) < 0)
            = (if dir = Asc then K a < K b else K b < K a)"
      using compare_rows_others(2,3) [OF ab(3,4) n, of P]
      by (cases dir) (simp_all add: K_def)
    show "(sort_reads (compare_rows P key dir (h ! a) (h ! b)) = 0) = (K a = K b)"
      using compare_rows_others(4) [OF ab(3,4) n, of P dir]
      by (simp add: K_def)
  qed
qed

lemma getProcessedRows_sorted:
  "getProcessedRows P (s\<lparr>sortConfig := Some (key, dir)\<rparr>) =
     sort_cmp (unordered_sort P) (\<lambda>a b. compare_rows P key dir (heap s ! a) (heap s ! b))
       (getProcessedRows P (s\<lparr>sortConfig := None\<rparr>))"
  by (simp add: getProcessedRows_def Let_def)

lemma sorted_rows_nullish_last:
  fixes s key dir P
  defines "cmp \<equiv> (\<lambda>a b. sort_reads (compare_rows P key dir (heap s ! a) (heap s ! b)))"
  defines "defined \<equiv> (\<lambda>r. \<not> is_nullish (get_prop (heap s ! r) key))"
  shows "stable_sort cmp xs = stable_sort cmp (filter defined xs) @ stable_sort cmp (filter (\<lambda>r. \<not> defined r) xs)"
  unfolding cmp_def defined_def
proof (rule stable_sort_two_classes)
  fix x y
  assume "\<not> is_nullish (get_prop (heap s ! x) key)" "\<not> \<not> is_nullish (get_prop (heap s ! y) key)"
  then show "sort_reads (compare_rows P key dir (heap s ! x) (heap s ! y)) \<le> 0
             \<and> 0 < sort_reads (compare_rows P key dir (heap s ! y) (heap s ! x))"
    using compare_rows_defined_nullish [of "heap s ! x" key "heap s ! y" P dir] by simp
qed

lemma filter_sorted_rows:
  fixes s key dir P
  defines "cmp \<equiv> (\<lambda>a b. sort_reads (compare_rows P key dir (heap s ! a) (heap s ! b)))"
  defines "defined \<equiv> (\<lambda>r. \<not> is_nullish (get_prop (heap s ! r) key))"
  shows "filter defined (stable_sort cmp xs) = stable_sort cmp (filter defined xs)"
    and "filter (\<lambda>r. \<not> defined r) (stable_sort cmp xs) = stable_sort cmp (filter (\<lambda>r. \<not> defined r) xs)"
proof -
  have split: "stable_sort cmp xs = stable_sort cmp (filter defined xs) @ stable_sort cmp (filter (\<lambda>r. \<not> defined r) xs)"
    unfolding cmp_def defined_def by (rule sorted_rows_nullish_last)
  have d: "filter defined (stable_sort cmp (filter defined xs)) = stable_sort cmp (filter defined xs)"
    and n: "filter defined (stable_sort cmp (filter (\<lambda>r. \<not> defined r) xs)) = []"
    and d': "filter (\<lambda>r. \<not> defined r) (stable_sort cmp (filter defined xs)) = []"
    and n': "filter (\<lambda>r. \<not> defined r) (stable_sort cmp (filter (\<lambda>r. \<not> defined r) xs))
               = stable_sort cmp (filter (\<lambda>r. \<not> defined r) xs)"
    by (simp_all add: filter_id_conv filter_empty_conv set_stable_sort)
  show "filter defined (stable_sort cmp xs) = stable_sort cmp (filter defined xs)"
    by (subst split) (simp only: filter_append d n append_Nil2)
  show "filter (\<lambda>r. \<not> defined r) (stable_sort cmp xs) = stable_sort cmp (filter (\<lambda>r. \<not> defined r) xs)"
    by (subst split) (simp only: filter_append d' n' append_Nil)
qed

lemma stable_sort_numbers_reverse:
  assumes num: "\<forall>r \<in> set xs. \<exists>n. get_prop (h ! r) key = Prim (VNum n)"
    and ties: "distinct (map (\<lambda>r. get_prop (h ! r) key) xs)"
  shows "stable_sort (\<lambda>a b. sort_reads (compare_rows P key Desc (h ! a) (h ! b))) xs
           = rev (stable_sort (\<lambda>a b. sort_reads (compare_rows P key Asc (h ! a) (h ! b))) xs)"
proof -
  define k where "k = (\<lambda>r. case get_prop (h ! r) key of Prim (VNum n) \<Rightarrow> n | _ \<Rightarrow> 0)"
  have val: "get_prop (h ! r) key = Prim (VNum (k r))" if "r \<in> set xs" for r
    using num that by (auto simp: k_def)
  have "map (\<lambda>r. get_prop (h ! r) key) xs = map (\<lambda>n. Prim (VNum n)) (map k xs)"
    by (simp add: val)
  with ties have "distinct (map k xs)"
    by (metis distinct_map)
  moreover have "\<forall>a \<in> set xs. \<forall>b \<in> set xs.
      (sort_reads (compare_rows P key Asc (h ! a) (h ! b)) \<le> 0) = (k a \<le> k b)"
    by (simp add: compare_rows_numbers(1) [OF val val])
  moreover have "\<forall>a \<in> set xs. \<forall>b \<in> set xs.
      (sort_reads (compare_rows P key Desc (h ! a) (h ! b)) \<le> 0) = (k b \<le> k a)"
    by (simp add: compare_rows_numbers(2) [OF val val])
  ultimately show ?thesis
    by (intro stable_sort_reverse [where k = k])
qed

lemma stable_sort_others_reverse:
  assumes oth: "\<forall>r \<in> set xs. \<not> is_nullish (get_prop (h ! r) key) \<and> \<not> is_number (get_prop (h ! r) key)"
    and ties: "distinct (map (\<lambda>r. toLowerCase (String_any P (get_prop (h ! r) key))) xs)"
  shows "stable_sort (\<lambda>a b. sort_reads (compare_rows P key Desc (h ! a) (h ! b))) xs
           = rev (stable_sort (\<lambda>a b. sort_reads (compare_rows P key Asc (h ! a) (h ! b))) xs)"
proof -
  define k where "k = (\<lambda>r. toLowerCase (String_any P (get_prop (h ! r) key)))"
  have le: "(sort_reads (compare_rows P key Asc (h ! a) (h ! b)) \<le> 0) = (k a \<le> k b)"
    "(sort_reads (compare_rows P key Desc (h ! a) (h ! b)) \<le> 0) = (k b \<le> k a)"
    if "a \<in> set xs" "b \<in> set xs" for a b
  proof -
    from that oth have d: "\<not> is_nullish (get_prop (h ! a) key)" "\<not> is_nullish (get_prop (h ! b) key)"
      "\<not> is_number (get_prop (h ! a) key)" "\<not> is_number (get_prop (h ! b) key)"
      by simp_all
    have split: "(c \<le> 0) = (c < 0 \<or> c = 0)" for c :: int
      by linarith
    show "(sort_reads (compare_rows P key Asc (h ! a) (h ! b)) \<le> 0) = (k a \<le> k b)"
      unfolding split compare_rows_others(2) [OF d] compare_rows_others(4) [OF d] k_def
      by (simp add: le_less)
    show "(sort_reads (compare_rows P key Desc (h ! a) (h ! b)) \<le> 0) = (k b \<le> k a)"
      unfolding split compare_rows_others(3) [OF d] compare_rows_others(4) [OF d] k_def
      by (auto simp: le_less)
  qed
  have "\<forall>a \<in> set xs. \<forall>b \<in> set xs.
      (sort_reads (compare_rows P key Asc (h ! a) (h ! b)) \<le> 0) = (k a \<le> k b)"
    using le(1) by blast
  moreover have "\<forall>a \<in> set xs. \<forall>b \<in> set xs.
      (sort_reads (compare_rows P key Desc (h ! a) (h ! b)) \<le> 0) = (k b \<le> k a)"
    using le(2) by blast
  moreover have "distinct (map k xs)"
    using ties by (simp add: k_def)
  ultimately show ?thesis
    by (intro stable_sort_reverse [where k = k])
qed

section \<open>The sort order\<close>

lemma equal_keys_example:
  "getProcessedRows P
     \<lparr>heap = [\<lparr>props = [(''name'', VStr ''Ann''), (''id'', VStr ''1'')], proto = Object_prototype\<rparr>,
              \<lparr>props = [(''name'', VStr ''Ann''), (''id'', VStr ''2'')], proto = Object_prototype\<rparr>],
      data = \<lparr>headers = [''name'', ''id''], rows = [0, 1]\<rparr>,
      sortConfig = Some (''name'', dir), searchTerm = [], editingHeader = None,
      editingHeaderValue = [], currentPage = 1, alerts = []\<rparr> = [0, 1]"
  by (cases dir; hypsubst; code_simp)

text \<open>
  C4, as claimed: when all sort-key values are defined, the descending order is the exact
  reverse of the ascending order. Two rows with the same value compare as equal in both
  directions and the sort is stable, so on every platform they keep their order both
  times.
\<close>

theorem equal_keys_not_reversed_counterexample:
  "\<forall>P. getProcessedRows P
     \<lparr>heap = [\<lparr>props = [(''name'', VStr ''Ann''), (''id'', VStr ''1'')], proto = Object_prototype\<rparr>,
              \<lparr>props = [(''name'', VStr ''Ann''), (''id'', VStr ''2'')], proto = Object_prototype\<rparr>],
      data = \<lparr>headers = [''name'', ''id''], rows = [0, 1]\<rparr>,
      sortConfig = Some (''name'', Asc), searchTerm = [], editingHeader = None,
      editingHeaderValue = [], currentPage = 1, alerts = []\<rparr> = [0, 1]
   \<and> getProcessedRows P
     \<lparr>heap = [\<lparr>props = [(''name'', VStr ''Ann''), (''id'', VStr ''1'')], proto = Object_prototype\<rparr>,
              \<lparr>props = [(''name'', VStr ''Ann''), (''id'', VStr ''2'')], proto = Object_prototype\<rparr>],
      data = \<lparr>headers = [''name'', ''id''], rows = [0, 1]\<rparr>,
      sortConfig = Some (''name'', Desc), searchTerm = [], editingHeader = None,
      editingHeaderValue = [], currentPage = 1, alerts = []\<rparr> = [0, 1]
   \<and> rev [0, 1 :: nat] \<noteq> [0, 1]"
  using equal_keys_example [where dir = Asc] equal_keys_example [where dir = Desc] by simp

text \<open>
  C4, amended. Take any table, search term, sort key and platform such that, among the
  filtered rows, the sort-key values that are \<open>null\<close> or \<open>undefined\<close> (absent) are one and
  the same value, and the defined sort-key values are all numbers other than \<open>NaN\<close>, or
  none of the sort-key values is a number. Then in both directions the rows whose
  sort-key value is \<open>null\<close> or absent come after all rows with a defined value; the sorted
  rows are a permutation of the filtered rows; and the rows that compare equal to a row
  keep their original relative order. When in addition the defined sort-key values are
  pairwise different (the numbers themselves, or the lowercased texts of the values that
  are not numbers), the rows with a defined value appear in descending order in the exact
  reverse of their ascending order. Clicking a header once sorts ascending, clicking it
  again sorts descending.
\<close>

theorem sort_nullish_last_and_reverse:
  "let asc = getProcessedRows P (s\<lparr>sortConfig := Some (key, Asc)\<rparr>);
       desc = getProcessedRows P (s\<lparr>sortConfig := Some (key, Desc)\<rparr>);
       unsorted = getProcessedRows P (s\<lparr>sortConfig := None\<rparr>);
       val = (\<lambda>r. get_prop (heap s ! r) key);
       defined = (\<lambda>r. \<not> is_nullish (val r));
       low = (\<lambda>r. toLowerCase (String_any P (val r)));
       tie = (\<lambda>dir r x. compare_rows P key dir (heap s ! x) (heap s ! r) = Some 0)
   in ((\<forall>r \<in> set unsorted. \<forall>r' \<in> set unsorted.
            is_nullish (val r) \<and> is_nullish (val r') \<longrightarrow> val r = val r')
        \<and> ((\<forall>r \<in> set unsorted. defined r \<longrightarrow> (\<exists>n. val r = Prim (VNum n)))
            \<or> (\<forall>r \<in> set unsorted. \<not> is_number (val r)))
       \<longrightarrow> asc = filter defined asc @ filter (\<lambda>r. \<not> defined r) asc
           \<and> desc = filter defined desc @ filter (\<lambda>r. \<not> defined r) desc
           \<and> set asc = set unsorted \<and> set desc = set unsorted
           \<and> length asc = length unsorted \<and> length desc = length unsorted
           \<and> (\<forall>x. count_list asc x = count_list unsorted x
                  \<and> count_list desc x = count_list unsorted x)
           \<and> (\<forall>r \<in> set unsorted. filter (tie Asc r) asc = filter (tie Asc r) unsorted
                                   \<and> filter (tie Desc r) desc = filter (tie Desc r) unsorted)
           \<and> (((\<forall>r \<in> set unsorted. defined r \<longrightarrow> (\<exists>n. val r = Prim (VNum n)))
                  \<and> distinct (map val (filter defined unsorted)))
               \<or> ((\<forall>r \<in> set unsorted. \<not> is_number (val r))
                  \<and> distinct (map low (filter defined unsorted)))
              \<longrightarrow> filter defined desc = rev (filter defined asc)))
      \<and> getProcessedRows P (handleSort key (s\<lparr>sortConfig := None\<rparr>)) = asc
      \<and> getProcessedRows P (handleSort key (handleSort key (s\<lparr>sortConfig := None\<rparr>))) = desc"
proof -
  let ?asc = "getProcessedRows P (s\<lparr>sortConfig := Some (key, Asc)\<rparr>)"
  let ?desc = "getProcessedRows P (s\<lparr>sortConfig := Some (key, Desc)\<rparr>)"
  let ?unsorted = "getProcessedRows P (s\<lparr>sortConfig := None\<rparr>)"
  let ?val = "\<lambda>r. get_prop (heap s ! r) key"
  let ?defined = "\<lambda>r. \<not> is_nullish (get_prop (heap s ! r) key)"
  let ?undefined = "\<lambda>r. \<not> \<not> is_nullish (get_prop (heap s ! r) key)"
  let ?low = "\<lambda>r. toLowerCase (String_any P (get_prop (heap s ! r) key))"
  let ?comparefn = "\<lambda>dir a b. compare_rows P key dir (heap s ! a) (heap s ! b)"
  let ?cmp = "\<lambda>dir a b. sort_reads (compare_rows P key dir (heap s ! a) (heap s ! b))"
  let ?tie = "\<lambda>dir r x. compare_rows P key dir (heap s ! x) (heap s ! r) = Some 0"
  let ?N = "\<forall>r \<in> set ?unsorted. \<forall>r' \<in> set ?unsorted.
              is_nullish (?val r) \<and> is_nullish (?val r') \<longrightarrow> ?val r = ?val r'"
  let ?num = "\<forall>r \<in> set ?unsorted. ?defined r \<longrightarrow> (\<exists>n. ?val r = Prim (VNum n))"
  let ?oth = "\<forall>r \<in> set ?unsorted. \<not> is_number (?val r)"
  have click1: "getProcessedRows P (handleSort key (s\<lparr>sortConfig := None\<rparr>)) = ?asc"
    by (simp add: handleSort_def getProcessedRows_def Let_def)
  have click2: "getProcessedRows P (handleSort key (handleSort key (s\<lparr>sortConfig := None\<rparr>))) = ?desc"
    by (simp add: handleSort_def getProcessedRows_def Let_def)
  have main: "?N \<and> (?num \<or> ?oth)
       \<longrightarrow> ?asc = filter ?defined ?asc @ filter ?undefined ?asc
           \<and> ?desc = filter ?defined ?desc @ filter ?undefined ?desc
           \<and> set ?asc = set ?unsorted \<and> set ?desc = set ?unsorted
           \<and> length ?asc = length ?unsorted \<and> length ?desc = length ?unsorted
           \<and> (\<forall>x. count_list ?asc x = count_list ?unsorted x
                  \<and> count_list ?desc x = count_list ?unsorted x)
           \<and> (\<forall>r \<in> set ?unsorted. filter (?tie Asc r) ?asc = filter (?tie Asc r) ?unsorted
                                   \<and> filter (?tie Desc r) ?desc = filter (?tie Desc r) ?unsorted)
           \<and> ((?num \<and> distinct (map ?val (filter ?defined ?unsorted)))
               \<or> (?oth \<and> distinct (map ?low (filter ?defined ?unsorted)))
              \<longrightarrow> filter ?defined ?desc = rev (filter ?defined ?asc))"
  proof (intro impI)
    assume H: "?N \<and> (?num \<or> ?oth)"
    have con: "consistent (?comparefn dir) ?unsorted" for dir
      by (rule compare_rows_consistent [OF conjunct1 [OF H] conjunct2 [OF H]])
    then have number: "compare_rows P key dir (heap s ! a) (heap s ! b) \<noteq> None"
      if "a \<in> set ?unsorted" "b \<in> set ?unsorted" for dir a b
      using that unfolding consistent_def by blast
    have order: "consistent_order (?cmp dir) ?unsorted" for dir
      using con [of dir] unfolding consistent_def by blast
    have sorted: "getProcessedRows P (s\<lparr>sortConfig := Some (key, dir)\<rparr>) = stable_sort (?cmp dir) ?unsorted"
      for dir
      unfolding getProcessedRows_sorted by (simp add: sort_cmp_def con)
    have fd: "filter ?defined (stable_sort (?cmp dir) xs) = stable_sort (?cmp dir) (filter ?defined xs)"
      and fn: "filter ?undefined (stable_sort (?cmp dir) xs) = stable_sort (?cmp dir) (filter ?undefined xs)"
      for dir xs
      by (rule filter_sorted_rows)+
    have split: "stable_sort (?cmp dir) xs = filter ?defined (stable_sort (?cmp dir) xs)
                   @ filter ?undefined (stable_sort (?cmp dir) xs)" for dir xs
      unfolding fd fn by (rule sorted_rows_nullish_last)
    have stable: "filter (?tie dir r) (stable_sort (?cmp dir) ?unsorted) = filter (?tie dir r) ?unsorted"
      if r: "r \<in> set ?unsorted" for dir r
    proof -
      have tie: "(compare_rows P key dir (heap s ! x) (heap s ! r) = Some 0)
                   = (sort_reads (compare_rows P key dir (heap s ! x) (heap s ! r)) = 0)"
        if "x \<in> set ?unsorted" for x
        using sort_reads_zero [OF number [OF that r, of dir]] by simp
      have "filter (?tie dir r) (stable_sort (?cmp dir) ?unsorted)
              = filter (\<lambda>x. ?cmp dir x r = 0) (stable_sort (?cmp dir) ?unsorted)"
        by (rule filter_cong [OF refl]) (simp add: set_stable_sort tie)
      also have "\<dots> = filter (\<lambda>x. ?cmp dir x r = 0) ?unsorted"
        by (rule stable_sort_stable [OF order r])
      also have "\<dots> = filter (?tie dir r) ?unsorted"
        by (rule filter_cong [OF refl]) (simp add: tie)
      finally show ?thesis .
    qed
    have rev_num: "filter ?defined (stable_sort (?cmp Desc) ?unsorted)
                     = rev (filter ?defined (stable_sort (?cmp Asc) ?unsorted))"
      if "?num" and "distinct (map ?val (filter ?defined ?unsorted))"
      unfolding fd using that by (intro stable_sort_numbers_reverse) simp_all
    have rev_oth: "filter ?defined (stable_sort (?cmp Desc) ?unsorted)
                     = rev (filter ?defined (stable_sort (?cmp Asc) ?unsorted))"
      if "?oth" and "distinct (map ?low (filter ?defined ?unsorted))"
      unfolding fd using that by (intro stable_sort_others_reverse) simp_all
    have rev_both: "(?num \<and> distinct (map ?val (filter ?defined ?unsorted)))
               \<or> (?oth \<and> distinct (map ?low (filter ?defined ?unsorted)))
              \<longrightarrow> filter ?defined (stable_sort (?cmp Desc) ?unsorted)
                     = rev (filter ?defined (stable_sort (?cmp Asc) ?unsorted))"
      using rev_num rev_oth by blast
    have st: "\<forall>r \<in> set ?unsorted.
        filter (?tie Asc r) (stable_sort (?cmp Asc) ?unsorted) = filter (?tie Asc r) ?unsorted
        \<and> filter (?tie Desc r) (stable_sort (?cmp Desc) ?unsorted) = filter (?tie Desc r) ?unsorted"
      using stable by blast
    show "?asc = filter ?defined ?asc @ filter ?undefined ?asc
           \<and> ?desc = filter ?defined ?desc @ filter ?undefined ?desc
           \<and> set ?asc = set ?unsorted \<and> set ?desc = set ?unsorted
           \<and> length ?asc = length ?unsorted \<and> length ?desc = length ?unsorted
           \<and> (\<forall>x. count_list ?asc x = count_list ?unsorted x
                  \<and> count_list ?desc x = count_list ?unsorted x)
           \<and> (\<forall>r \<in> set ?unsorted. filter (?tie Asc r) ?asc = filter (?tie Asc r) ?unsorted
                                   \<and> filter (?tie Desc r) ?desc = filter (?tie Desc r) ?unsorted)
           \<and> ((?num \<and> distinct (map ?val (filter ?defined ?unsorted)))
               \<or> (?oth \<and> distinct (map ?low (filter ?defined ?unsorted)))
              \<longrightarrow> filter ?defined ?desc = rev (filter ?defined ?asc))"
      unfolding sorted
      by (intro conjI allI split set_stable_sort length_stable_sort count_list_stable_sort st rev_both)
  qed
  show ?thesis
    unfolding Let_def by (rule conjI [OF main conjI [OF click1 click2]])
qed

theorem sort_nullish_last_and_reverse_witness:
  "map (\<lambda>r. get_prop ([\<lparr>props = [(''n'', VNum 3)], proto = Object_prototype\<rparr>,
                          \<lparr>props = [(''n'', VNull)], proto = Object_prototype\<rparr>,
                          \<lparr>props = [(''n'', VNum 1)], proto = Object_prototype\<rparr>,
                          \<lparr>props = [(''n'', VNull)], proto = Object_prototype\<rparr>,
                          \<lparr>props = [(''n'', VNum 2)], proto = Object_prototype\<rparr>] ! r) ''n'')
       [0, 1, 2, 3, 4 :: nat]
     = [Prim (VNum 3), Prim VNull, Prim (VNum 1), Prim VNull, Prim (VNum 2)]
   \<and> getProcessedRows
        \<lparr>new_Date = (\<lambda>s. Inr None), native_source = (\<lambda>k. []), unordered_sort = (\<lambda>cmp xs. xs)\<rparr>
        \<lparr>heap = [\<lparr>props = [(''n'', VNum 3)], proto = Object_prototype\<rparr>,
                 \<lparr>props = [(''n'', VNull)], proto = Object_prototype\<rparr>,
                 \<lparr>props = [(''n'', VNum 1)], proto = Object_prototype\<rparr>,
                 \<lparr>props = [(''n'', VNull)], proto = Object_prototype\<rparr>,
                 \<lparr>props = [(''n'', VNum 2)], proto = Object_prototype\<rparr>],
         data = \<lparr>headers = [''n''], rows = [0, 1, 2, 3, 4]\<rparr>,
         sortConfig = Some (''n'', Asc), searchTerm = [], editingHeader = None,
         editingHeaderValue = [], currentPage = 1, alerts = []\<rparr> = [2, 4, 0, 1, 3]
   \<and> getProcessedRows
        \<lparr>new_Date = (\<lambda>s. Inr None), native_source = (\<lambda>k. []), unordered_sort = (\<lambda>cmp xs. xs)\<rparr>
        \<lparr>heap = [\<lparr>props = [(''n'', VNum 3)], proto = Object_prototype\<rparr>,
                 \<lparr>props = [(''n'', VNull)], proto = Object_prototype\<rparr>,
                 \<lparr>props = [(''n'', VNum 1)], proto = Object_prototype\<rparr>,
                 \<lparr>props = [(''n'', VNull)], proto = Object_prototype\<rparr>,
                 \<lparr>props = [(''n'', VNum 2)], proto = Object_prototype\<rparr>],
         data = \<lparr>headers = [''n''], rows = [0, 1, 2, 3, 4]\<rparr>,
         sortConfig = Some (''n'', Desc), searchTerm = [], editingHeader = None,
         editingHeaderValue = [], currentPage = 1, alerts = []\<rparr> = [0, 4, 2, 1, 3]
   \<and> filter (\<lambda>r. \<not> is_nullish (get_prop
           ([\<lparr>props = [(''n'', VNum 3)], proto = Object_prototype\<rparr>,
             \<lparr>props = [(''n'', VNull)], proto = Object_prototype\<rparr>,
             \<lparr>props = [(''n'', VNum 1)], proto = Object_prototype\<rparr>,
             \<lparr>props = [(''n'', VNull)], proto = Object_prototype\<rparr>,
             \<lparr>props = [(''n'', VNum 2)], proto = Object_prototype\<rparr>] ! r) ''n'')) [0, 4, 2, 1, 3 :: nat]
       = rev (filter (\<lambda>r. \<not> is_nullish (get_prop
           ([\<lparr>props = [(''n'', VNum 3)], proto = Object_prototype\<rparr>,
             \<lparr>props = [(''n'', VNull)], proto = Object_prototype\<rparr>,
             \<lparr>props = [(''n'', VNum 1)], proto = Object_prototype\<rparr>,
             \<lparr>props = [(''n'', VNull)], proto = Object_prototype\<rparr>,
             \<lparr>props = [(''n'', VNum 2)], proto = Object_prototype\<rparr>] ! r) ''n'')) [2, 4, 0, 1, 3 :: nat])
   \<and> getProcessedRows
        \<lparr>new_Date = (\<lambda>s. Inr None), native_source = (\<lambda>k. []), unordered_sort = (\<lambda>cmp xs. xs)\<rparr>
        \<lparr>heap = [\<lparr>props = [(''name'', VStr ''b'')], proto = Object_prototype\<rparr>,
                 \<lparr>props = [(''name'', VStr ''A'')], proto = Object_prototype\<rparr>,
                 \<lparr>props = [(''name'', VStr ''a'')], proto = Object_prototype\<rparr>],
         data = \<lparr>headers = [''name''], rows = [0, 1, 2]\<rparr>,
         sortConfig = Some (''name'', Asc), searchTerm = [], editingHeader = None,
         editingHeaderValue = [], currentPage = 1, alerts = []\<rparr> = [1, 2, 0]
   \<and> filter (\<lambda>x. compare_rows
           \<lparr>new_Date = (\<lambda>s. Inr None), native_source = (\<lambda>k. []), unordered_sort = (\<lambda>cmp xs. xs)\<rparr>
           ''name'' Asc
           ([\<lparr>props = [(''name'', VStr ''b'')], proto = Object_prototype\<rparr>,
             \<lparr>props = [(''name'', VStr ''A'')], proto = Object_prototype\<rparr>,
             \<lparr>props = [(''name'', VStr ''a'')], proto = Object_prototype\<rparr>] ! x)
           \<lparr>props = [(''name'', VStr ''A'')], proto = Object_prototype\<rparr> = Some 0) [1, 2, 0 :: nat]
       = [1, 2]"
proof -
  let ?P = "\<lparr>new_Date = (\<lambda>s. Inr None), native_source = (\<lambda>k. []), unordered_sort = (\<lambda>cmp xs. xs)\<rparr>"
  let ?h = "[\<lparr>props = [(''n'', VNum 3)], proto = Object_prototype\<rparr>,
             \<lparr>props = [(''n'', VNull)], proto = Object_prototype\<rparr>,
             \<lparr>props = [(''n'', VNum 1)], proto = Object_prototype\<rparr>,
             \<lparr>props = [(''n'', VNull)], proto = Object_prototype\<rparr>,
             \<lparr>props = [(''n'', VNum 2)], proto = Object_prototype\<rparr>]"
  let ?s = "\<lparr>heap = ?h, data = \<lparr>headers = [''n''], rows = [0, 1, 2, 3, 4]\<rparr>,
         sortConfig = None, searchTerm = [], editingHeader = None,
         editingHeaderValue = [], currentPage = 1, alerts = []\<rparr>"
  let ?h2 = "[\<lparr>props = [(''name'', VStr ''b'')], proto = Object_prototype\<rparr>,
              \<lparr>props = [(''name'', VStr ''A'')], proto = Object_prototype\<rparr>,
              \<lparr>props = [(''name'', VStr ''a'')], proto = Object_prototype\<rparr>]"
  let ?s2 = "\<lparr>heap = ?h2, data = \<lparr>headers = [''name''], rows = [0, 1, 2]\<rparr>,
         sortConfig = None, searchTerm = [], editingHeader = None,
         editingHeaderValue = [], currentPage = 1, alerts = []\<rparr>"
  have asc: "getProcessedRows ?P (?s\<lparr>sortConfig := Some (''n'', Asc)\<rparr>) = [2, 4, 0, 1, 3]"
    by code_simp
  have desc: "getProcessedRows ?P (?s\<lparr>sortConfig := Some (''n'', Desc)\<rparr>) = [0, 4, 2, 1, 3]"
    by code_simp
  have unsorted: "getProcessedRows ?P (?s\<lparr>sortConfig := None\<rparr>) = [0, 1, 2, 3, 4]"
    by code_simp
  have asc2: "getProcessedRows ?P (?s2\<lparr>sortConfig := Some (''name'', Asc)\<rparr>) = [1, 2, 0]"
    by code_simp
  have desc2: "getProcessedRows ?P (?s2\<lparr>sortConfig := Some (''name'', Desc)\<rparr>) = [0, 1, 2]"
    by code_simp
  have unsorted2: "getProcessedRows ?P (?s2\<lparr>sortConfig := None\<rparr>) = [0, 1, 2]"
    by code_simp
  have hyp: "(\<forall>r \<in> set [0, 1, 2, 3, 4 :: nat]. \<forall>r' \<in> set [0, 1, 2, 3, 4 :: nat].
          is_nullish (get_prop (heap ?s ! r) ''n'') \<and> is_nullish (get_prop (heap ?s ! r') ''n'') \<longrightarrow>
          get_prop (heap ?s ! r) ''n'' = get_prop (heap ?s ! r') ''n'')
      \<and> ((\<forall>r \<in> set [0, 1, 2, 3, 4 :: nat]. \<not> is_nullish (get_prop (heap ?s ! r) ''n'') \<longrightarrow>
             (\<exists>n. get_prop (heap ?s ! r) ''n'' = Prim (VNum n)))
          \<or> (\<forall>r \<in> set [0, 1, 2, 3, 4 :: nat]. \<not> is_number (get_prop (heap ?s ! r) ''n'')))"
    by (simp add: get_prop_def)
  have ties: "(\<forall>r \<in> set [0, 1, 2, 3, 4 :: nat]. \<not> is_nullish (get_prop (heap ?s ! r) ''n'') \<longrightarrow>
             (\<exists>n. get_prop (heap ?s ! r) ''n'' = Prim (VNum n)))
      \<and> distinct (map (\<lambda>r. get_prop (heap ?s ! r) ''n'')
            (filter (\<lambda>r. \<not> is_nullish (get_prop (heap ?s ! r) ''n'')) [0, 1, 2, 3, 4 :: nat]))"
    by (simp add: get_prop_def)
  note t = sort_nullish_last_and_reverse [where s = ?s and key = "''n''" and P = ?P,
      unfolded Let_def asc desc unsorted, THEN conjunct1, THEN mp, OF hyp]
  note t_rev = t [THEN conjunct2, THEN conjunct2, THEN conjunct2, THEN conjunct2, THEN conjunct2,
      THEN conjunct2, THEN conjunct2, THEN conjunct2, THEN mp, OF disjI1, OF ties]
  have rev: "filter (\<lambda>r. \<not> is_nullish (get_prop (?h ! r) ''n'')) [0, 4, 2, 1, 3 :: nat]
       = rev (filter (\<lambda>r. \<not> is_nullish (get_prop (?h ! r) ''n'')) [2, 4, 0, 1, 3 :: nat])"
    using t_rev by simp
  have hyp2: "(\<forall>r \<in> set [0, 1, 2 :: nat]. \<forall>r' \<in> set [0, 1, 2 :: nat].
          is_nullish (get_prop (heap ?s2 ! r) ''name'') \<and> is_nullish (get_prop (heap ?s2 ! r') ''name'') \<longrightarrow>
          get_prop (heap ?s2 ! r) ''name'' = get_prop (heap ?s2 ! r') ''name'')
      \<and> ((\<forall>r \<in> set [0, 1, 2 :: nat]. \<not> is_nullish (get_prop (heap ?s2 ! r) ''name'') \<longrightarrow>
             (\<exists>n. get_prop (heap ?s2 ! r) ''name'' = Prim (VNum n)))
          \<or> (\<forall>r \<in> set [0, 1, 2 :: nat]. \<not> is_number (get_prop (heap ?s2 ! r) ''name'')))"
    by (simp add: get_prop_def)
  note t2 = sort_nullish_last_and_reverse [where s = ?s2 and key = "''name''" and P = ?P,
      unfolded Let_def asc2 desc2 unsorted2, THEN conjunct1, THEN mp, OF hyp2]
  have one: "(1 :: nat) \<in> set [0, 1, 2]"
    by simp
  note t_tie = t2 [THEN conjunct2, THEN conjunct2, THEN conjunct2, THEN conjunct2, THEN conjunct2,
      THEN conjunct2, THEN conjunct2, THEN conjunct1, THEN bspec, OF one, THEN conjunct1]
  have cmp0: "compare_rows ?P ''name'' Asc (?h2 ! 0) (?h2 ! 1) \<noteq> Some 0"
    "compare_rows ?P ''name'' Asc (?h2 ! 1) (?h2 ! 1) = Some 0"
    "compare_rows ?P ''name'' Asc (?h2 ! 2) (?h2 ! 1) = Some 0"
    by code_simp+
  have tie': "filter (\<lambda>x. compare_rows ?P ''name'' Asc (?h2 ! x) (?h2 ! 1) = Some 0) [1, 2, 0 :: nat] = [1, 2]"
    using t_tie cmp0 by simp
  show ?thesis
    using asc desc rev asc2 tie' by (simp add: get_prop_def)
qed

end
